theory Spec2Isabelle
  imports Main "HOL-Library.Log_Nat" "HOL-Library.Char_ord" "HOL-Library.List_Lexorder"
begin

section \<open>Python values used by the plate layout code\<close>

text \<open>
  Exceptions are values: a function that can raise returns \<open>py_error + 'a\<close>.
  \<open>EngineError\<close> stands for any exception escaping the CP-SAT engine.
\<close>

datatype py_error = ZeroDivisionError | OverflowError | ValueError | EngineError

subsection \<open>Python floats (IEEE binary64, round to nearest, ties to even)\<close>

text \<open>
  A finite double is represented by the rational number it denotes.  Signed zeros are not
  distinguished: no operation of the code observes the sign of zero.
\<close>

datatype double = Finite rat | PosInf | NegInf | NaN

definition ilog2 :: "rat \<Rightarrow> int" where
  \<comment> \<open>\<open>\<lfloor>log\<^sub>2 x\<rfloor>\<close> for \<open>0 < x\<close>\<close>
  "ilog2 x = (if 1 \<le> x then int (floorlog 2 (nat \<lfloor>x\<rfloor>)) - 1
              else - int (floorlog 2 (nat (\<lceil>1 / x\<rceil> - 1))))"

definition round_half_even :: "rat \<Rightarrow> int" where
  "round_half_even x =
     (let f = \<lfloor>x\<rfloor>; d = x - of_int f
      in if d < 1 / 2 then f else if 1 / 2 < d then f + 1
         else if even f then f else f + 1)"

definition round_mag :: "rat \<Rightarrow> rat option" where
  \<comment> \<open>rounding of a positive magnitude to 53 significant bits, exponents from \<open>-1022\<close>
      (subnormals share the least exponent) to \<open>1023\<close>; \<open>None\<close> is overflow\<close>
  "round_mag x =
     (let e = max (ilog2 x) (- 1022);
          n = round_half_even (x / 2 powi (e - 52))
      in if 1023 < e \<or> (e = 1023 \<and> n = 2 ^ 53) then None
         else Some (of_int n * 2 powi (e - 52)))"

definition round_double :: "rat \<Rightarrow> double" where
  "round_double x =
     (if x = 0 then Finite 0
      else if 0 < x then (case round_mag x of None \<Rightarrow> PosInf | Some y \<Rightarrow> Finite y)
      else (case round_mag (- x) of None \<Rightarrow> NegInf | Some y \<Rightarrow> Finite (- y)))"

fun fmul :: "double \<Rightarrow> double \<Rightarrow> double" where
  "fmul (Finite a) (Finite b) = round_double (a * b)"
| "fmul NaN _ = NaN"
| "fmul _ NaN = NaN"
| "fmul (Finite a) PosInf = (if a = 0 then NaN else if 0 < a then PosInf else NegInf)"
| "fmul (Finite a) NegInf = (if a = 0 then NaN else if 0 < a then NegInf else PosInf)"
| "fmul PosInf (Finite b) = (if b = 0 then NaN else if 0 < b then PosInf else NegInf)"
| "fmul NegInf (Finite b) = (if b = 0 then NaN else if 0 < b then NegInf else PosInf)"
| "fmul PosInf PosInf = PosInf"
| "fmul NegInf NegInf = PosInf"
| "fmul PosInf NegInf = NegInf"
| "fmul NegInf PosInf = NegInf"

fun fadd :: "double \<Rightarrow> double \<Rightarrow> double" where
  "fadd (Finite a) (Finite b) = round_double (a + b)"
| "fadd NaN _ = NaN"
| "fadd _ NaN = NaN"
| "fadd PosInf NegInf = NaN"
| "fadd NegInf PosInf = NaN"
| "fadd PosInf _ = PosInf"
| "fadd NegInf _ = NegInf"
| "fadd _ PosInf = PosInf"
| "fadd _ NegInf = NegInf"

definition py_float :: "int \<Rightarrow> py_error + double" where
  \<comment> \<open>conversion of an \<open>int\<close> operand to \<open>float\<close>: \<open>OverflowError\<close> beyond the largest double\<close>
  "py_float n = (case round_double (of_int n) of
                   Finite y \<Rightarrow> Inr (Finite y)
                 | _ \<Rightarrow> Inl OverflowError)"

definition py_int :: "double \<Rightarrow> py_error + int" where
  \<comment> \<open>\<open>int(x)\<close>: truncation towards zero\<close>
  "py_int x = (case x of
                 Finite y \<Rightarrow> Inr (if 0 \<le> y then \<lfloor>y\<rfloor> else \<lceil>y\<rceil>)
               | NaN \<Rightarrow> Inl ValueError
               | _ \<Rightarrow> Inl OverflowError)"

definition py_truediv :: "int \<Rightarrow> int \<Rightarrow> py_error + double" where
  \<comment> \<open>\<open>a / b\<close> on two \<open>int\<close>s: the correctly rounded quotient\<close>
  "py_truediv a b =
     (if b = 0 then Inl ZeroDivisionError
      else (case round_double (of_int a / of_int b) of
              Finite y \<Rightarrow> Inr (Finite y)
            | _ \<Rightarrow> Inl OverflowError))"

definition math_ceil :: "double \<Rightarrow> py_error + int" where
  "math_ceil x = (case x of
                    Finite y \<Rightarrow> Inr \<lceil>y\<rceil>
                  | NaN \<Rightarrow> Inl ValueError
                  | _ \<Rightarrow> Inl OverflowError)"

definition ceil_div :: "int \<Rightarrow> int \<Rightarrow> py_error + int" where
  \<comment> \<open>\<open>math.ceil(a / b)\<close>\<close>
  "ceil_div a b = (case py_truediv a b of Inl e \<Rightarrow> Inl e | Inr q \<Rightarrow> math_ceil q)"

subsection \<open>Strings\<close>

definition truthy :: "string option \<Rightarrow> bool" where
  \<comment> \<open>truth value of an \<open>Optional[str]\<close>: \<open>None\<close> and the empty string are false\<close>
  "truthy s = (case s of None \<Rightarrow> False | Some t \<Rightarrow> t \<noteq> [])"

fun py_join :: "string \<Rightarrow> string list \<Rightarrow> string" where
  \<comment> \<open>\<open>sep.join(xs)\<close>\<close>
  "py_join sep [] = []"
| "py_join sep [x] = x"
| "py_join sep (x # y # ys) = x @ sep @ py_join sep (y # ys)"

section \<open>Data model\<close>

subsection \<open>Source plates (\<open>models/source_plate.py\<close>)\<close>

record SourceWell =
  sw_position :: string
  sw_gene_symbol :: string
  sw_volume :: "double option"
  sw_concentration :: "double option"

record SourcePlate =
  barcode :: string
  sp_plate_type :: string
  sp_wells :: "SourceWell list"

definition find_well :: "SourcePlate \<Rightarrow> string \<Rightarrow> SourceWell option" where
  "find_well sp gene = find (\<lambda>w. sw_gene_symbol w = gene) (sp_wells sp)"

subsection \<open>Design parameters (\<open>models/design_parameters.py\<close>)\<close>

datatype PlateType = PLATE_96 | PLATE_384 | PLATE_1536

datatype Distribution = RANDOM | COLUMN | ROW | UNIFORM

datatype ControlType = POSITIVE | NEGATIVE | BLANK_CONTROL

record Control =
  c_type :: ControlType
  c_name :: string
  c_count :: int
  c_source_well :: "string option"

record GeneConfig =
  gc_gene_symbol :: string
  gc_replicates :: int
  gc_transfer_volume :: double

record DesignParameters =
  plate_type :: PlateType
  replicates :: int
  edge_empty_layers :: int
  distribution :: Distribution
  controls :: "Control list"
  transfer_volume :: double
  gene_configs :: "string \<rightharpoonup> GeneConfig"

definition get_replicates_for_gene :: "DesignParameters \<Rightarrow> string \<Rightarrow> int" where
  "get_replicates_for_gene p gene =
     (case gene_configs p gene of Some cfg \<Rightarrow> gc_replicates cfg | None \<Rightarrow> replicates p)"

definition get_volume_for_gene :: "DesignParameters \<Rightarrow> string \<Rightarrow> double" where
  "get_volume_for_gene p gene =
     (case gene_configs p gene of Some cfg \<Rightarrow> gc_transfer_volume cfg | None \<Rightarrow> transfer_volume p)"

fun plate_dimensions :: "PlateType \<Rightarrow> int \<times> int" where
  "plate_dimensions PLATE_96 = (8, 12)"
| "plate_dimensions PLATE_384 = (16, 24)"
| "plate_dimensions PLATE_1536 = (32, 48)"

definition get_plate_dimensions :: "DesignParameters \<Rightarrow> int \<times> int" where
  "get_plate_dimensions p = plate_dimensions (plate_type p)"

fun PLATE_TYPE_NAMES :: "PlateType \<Rightarrow> string" where
  "PLATE_TYPE_NAMES PLATE_96 = ''Corning_96_Uplate''"
| "PLATE_TYPE_NAMES PLATE_384 = ''384PP_AQ_BP''"
| "PLATE_TYPE_NAMES PLATE_1536 = ''1536LDV_AQ_B2''"

subsection \<open>Layouts and solver results (\<open>models/plate_layout.py\<close>)\<close>

datatype ContentType = EMPTY | SAMPLE | POSITIVE_CONTROL | NEGATIVE_CONTROL | BLANK

fun content_type_value :: "ContentType \<Rightarrow> string" where
  "content_type_value EMPTY = ''empty''"
| "content_type_value SAMPLE = ''sample''"
| "content_type_value POSITIVE_CONTROL = ''positive_control''"
| "content_type_value NEGATIVE_CONTROL = ''negative_control''"
| "content_type_value BLANK = ''blank''"

record LayoutWell =
  position :: string
  row :: int
  col :: int
  content_type :: ContentType
  gene_symbol :: "string option"
  replicate_index :: "int option"
  source_plate :: "string option"
  source_well :: "string option"

record PlateLayout =
  plate_barcode :: string
  pl_plate_type :: PlateType
  plate_index :: int
  wells :: "LayoutWell list"

datatype SolveStatus = SUCCESS | PARTIAL | FAILED

datatype violation_text =
    AdjacentText string string string  \<comment> \<open>gene and the two positions of the f-string\<close>
  | QuadrantText "int list"  \<comment> \<open>the four quadrant counts of the f-string\<close>

record ConstraintViolation =
  constraint_name :: string
  description :: violation_text
  severity :: string
  affected_wells :: "string list"

datatype message =
    TooManyPlates int  \<comment> \<open>the message naming \<open>num_plates\<close> and the limit of 10\<close>
  | LayoutWithViolations
  | LayoutGenerated
  | NoLayoutFound
  | SolverError py_error  \<comment> \<open>the message built from \<open>str(e)\<close>\<close>

record SolveResult =
  status :: SolveStatus
  layouts :: "PlateLayout list"
  violations :: "ConstraintViolation list"
  relaxed_constraints :: "string list"
  solve_time_ms :: int
  message :: "message option"

subsection \<open>Picklists (\<open>models/picklist.py\<close>)\<close>

record PicklistEntry =
  source_plate_barcode :: string
  pe_source_well :: string
  source_plate_type :: string
  destination_plate_barcode :: string
  destination_plate_type :: string
  destination_well :: string
  pe_transfer_volume :: double
  pe_gene_symbol :: string
  compound_label :: "string option"
  ensembl_id :: "string option"

record EchoPicklist =
  entries :: "PicklistEntry list"

section \<open>Picklist generation and export\<close>

definition headers :: "string list" where
  "headers = [''Source Plate Barcode'', ''Source Well'', ''Source Plate Type'',
              ''Destination Plate Barcode'', ''Destination Plate Type'', ''Destination Well'',
              ''Transfer Volume'', ''GENE_SYMBOL'', ''COMPOUND_LABEL'', ''ENSEMBL_ID'']"

definition or_default :: "string option \<Rightarrow> string \<Rightarrow> string" where
  \<comment> \<open>\<open>x or d\<close> for an \<open>Optional[str]\<close>\<close>
  "or_default x d = (case x of None \<Rightarrow> d | Some s \<Rightarrow> if s = [] then d else s)"

definition csv_line :: "(double \<Rightarrow> string) \<Rightarrow> PicklistEntry \<Rightarrow> string" where
  \<comment> \<open>the line built for one entry in the loop of \<open>to_csv\<close>; \<open>str\<close> is Python's
      \<open>str\<close> on floats\<close>
  "csv_line str entry =
     py_join '','' [source_plate_barcode entry, pe_source_well entry, source_plate_type entry,
                   destination_plate_barcode entry, destination_plate_type entry,
                   destination_well entry, str (pe_transfer_volume entry), pe_gene_symbol entry,
                   or_default (compound_label entry) ''N/A'',
                   or_default (ensembl_id entry) ''N/A'']"

definition to_csv :: "(double \<Rightarrow> string) \<Rightarrow> EchoPicklist \<Rightarrow> string" where
  "to_csv str picklist =
     py_join [CHR 0x0A]
       (fold (\<lambda>entry lines. lines @ [csv_line str entry]) (entries picklist)
          [py_join '','' headers])"

definition picklist_source_well :: "SourcePlate \<Rightarrow> LayoutWell \<Rightarrow> string option" where
  \<comment> \<open>the \<open>source_well\<close> variable of \<open>generate_picklist\<close> after the lookup\<close>
  "picklist_source_well sp well =
     (if truthy (source_well well) then source_well well
      else if truthy (gene_symbol well) then
        (case find_well sp (the (gene_symbol well)) of
           Some sw \<Rightarrow> Some (sw_position sw)
         | None \<Rightarrow> None)
      else None)"

definition picklist_well :: "SourcePlate \<Rightarrow> double \<Rightarrow> PlateLayout \<Rightarrow> LayoutWell \<Rightarrow> PicklistEntry list" where
  \<comment> \<open>one iteration of the inner loop: the entries it appends\<close>
  "picklist_well sp volume layout well =
     (if content_type well = EMPTY then []
      else if \<not> truthy (picklist_source_well sp well) then []
      else [\<lparr>source_plate_barcode = barcode sp,
             pe_source_well = the (picklist_source_well sp well),
             source_plate_type = sp_plate_type sp,
             destination_plate_barcode = plate_barcode layout,
             destination_plate_type = PLATE_TYPE_NAMES (pl_plate_type layout),
             destination_well = position well,
             pe_transfer_volume = volume,
             pe_gene_symbol = or_default (gene_symbol well) (content_type_value (content_type well)),
             compound_label = None,
             ensembl_id = None\<rparr>])"

definition generate_picklist :: "PlateLayout list \<Rightarrow> SourcePlate \<Rightarrow> double \<Rightarrow> EchoPicklist" where
  "generate_picklist plate_layouts sp volume =
     \<lparr>entries = concat (map (\<lambda>layout. concat (map (picklist_well sp volume layout) (wells layout)))
                          plate_layouts)\<rparr>"

section \<open>The constraint solver (\<open>solver/constraint_solver.py\<close>)\<close>

subsection \<open>Plate geometry of a solver instance\<close>

definition py_range :: "int \<Rightarrow> int \<Rightarrow> int list" where
  \<comment> \<open>\<open>range(a, b)\<close>\<close>
  "py_range a b = [a..b - 1]"

definition rows :: "DesignParameters \<Rightarrow> int" where
  "rows p = fst (get_plate_dimensions p)"

definition cols :: "DesignParameters \<Rightarrow> int" where
  "cols p = snd (get_plate_dimensions p)"

definition edge :: "DesignParameters \<Rightarrow> int" where
  "edge p = edge_empty_layers p"

definition inner_rows :: "DesignParameters \<Rightarrow> int" where
  "inner_rows p = rows p - 2 * edge p"

definition inner_cols :: "DesignParameters \<Rightarrow> int" where
  "inner_cols p = cols p - 2 * edge p"

definition available_wells :: "DesignParameters \<Rightarrow> int" where
  "available_wells p = inner_rows p * inner_cols p"

definition inner_positions :: "DesignParameters \<Rightarrow> (int \<times> int) list" where
  "inner_positions p =
     [(r, c). r \<leftarrow> py_range (edge p) (rows p - edge p), c \<leftarrow> py_range (edge p) (cols p - edge p)]"

definition on_edge :: "DesignParameters \<Rightarrow> int \<Rightarrow> int \<Rightarrow> bool" where
  "on_edge p r c = (r < edge p \<or> r \<ge> rows p - edge p \<or> c < edge p \<or> c \<ge> cols p - edge p)"

subsection \<open>Position strings\<close>

fun decimal :: "nat \<Rightarrow> string" where
  "decimal n = (if n < 10 then [char_of (48 + n)]
                else decimal (n div 10) @ [char_of (48 + n mod 10)])"

declare decimal.simps [simp del]

definition str_int :: "int \<Rightarrow> string" where
  \<comment> \<open>\<open>str(n)\<close>, as in the f-string of the plate barcode\<close>
  "str_int n = (if n < 0 then CHR ''-'' # decimal (nat (- n)) else decimal (nat n))"

definition format_02d :: "int \<Rightarrow> string" where
  \<comment> \<open>the format \<open>:02d\<close>: at least two characters, padded with zeros after the sign\<close>
  "format_02d n = (if n < 0 then CHR ''-'' # decimal (nat (- n))
                   else if n < 10 then CHR ''0'' # decimal (nat n)
                   else decimal (nat n))"

definition format_position :: "int \<Rightarrow> int \<Rightarrow> string" where
  \<comment> \<open>\<open>chr(ord('A') + row)\<close> followed by \<open>col + 1\<close>; the letter is represented for
      code points below 256, which covers every row of a plate\<close>
  "format_position r c = char_of (65 + r) # format_02d (c + 1)"

subsection \<open>Wells\<close>

definition empty_well :: "int \<Rightarrow> int \<Rightarrow> LayoutWell" where
  "empty_well r c =
     \<lparr>position = format_position r c, row = r, col = c, content_type = EMPTY,
      gene_symbol = None, replicate_index = None, source_plate = None, source_well = None\<rparr>"

definition sample_well :: "SourcePlate \<Rightarrow> int \<Rightarrow> int \<Rightarrow> string \<Rightarrow> int \<Rightarrow> LayoutWell" where
  "sample_well sp r c gene rep =
     \<lparr>position = format_position r c, row = r, col = c, content_type = SAMPLE,
      gene_symbol = Some gene, replicate_index = Some rep, source_plate = Some (barcode sp),
      source_well = (case find_well sp gene of Some sw \<Rightarrow> Some (sw_position sw) | None \<Rightarrow> None)\<rparr>"

definition edge_wells :: "DesignParameters \<Rightarrow> LayoutWell list" where
  \<comment> \<open>the loop headed "Add edge wells"\<close>
  "edge_wells p =
     [empty_well r c. r \<leftarrow> py_range 0 (rows p), c \<leftarrow> py_range 0 (cols p), on_edge p r c]"

definition remaining_wells :: "DesignParameters \<Rightarrow> (int \<times> int) list \<Rightarrow> LayoutWell list" where
  \<comment> \<open>the loop headed "Fill remaining with empty"; \<open>keys\<close> are the keys of \<open>placement\<close>\<close>
  "remaining_wells p keys =
     [empty_well r c. r \<leftarrow> py_range (edge p) (rows p - edge p),
                      c \<leftarrow> py_range (edge p) (cols p - edge p), (r, c) \<notin> set keys]"

definition make_layout :: "DesignParameters \<Rightarrow> int \<Rightarrow> LayoutWell list \<Rightarrow> PlateLayout" where
  "make_layout p plate_idx ws =
     \<lparr>plate_barcode = ''plate_'' @ str_int (plate_idx + 1), pl_plate_type = plate_type p,
      plate_index = plate_idx, wells = ws\<rparr>"

subsection \<open>Sample instances\<close>

definition samples :: "DesignParameters \<Rightarrow> string list \<Rightarrow> (int \<times> int \<times> string) list" where
  \<comment> \<open>the list \<open>samples\<close> of \<open>(g_idx, rep, gene)\<close> built by the CP-SAT paths\<close>
  "samples p genes =
     [(int g_idx, rep, gene). (g_idx, gene) \<leftarrow> enumerate 0 genes,
                              rep \<leftarrow> py_range 0 (get_replicates_for_gene p gene)]"

subsection \<open>The CP-SAT engine\<close>

text \<open>
  The engine is not part of the repository.  A call is identified by the plate index and by
  whether the full or the relaxed model was posted; it is given the sample list and the
  time limit.  It either raises or answers with a status and a value for the row and the
  column variable of every sample.
\<close>

datatype cp_status = OPTIMAL | FEASIBLE | INFEASIBLE | MODEL_INVALID | UNKNOWN

datatype engine_reply = Raises | Reply cp_status "nat \<Rightarrow> int \<times> int"

type_synonym engine = "int \<Rightarrow> bool \<Rightarrow> (int \<times> int \<times> string) list \<Rightarrow> int \<Rightarrow> engine_reply"

definition same_gene_samples :: "(int \<times> int \<times> string) list \<Rightarrow> int \<Rightarrow> nat list" where
  \<comment> \<open>\<open>gene_samples\<close>: the indices of the samples of gene number \<open>g_idx\<close>\<close>
  "same_gene_samples ss g_idx = filter (\<lambda>s. fst (ss ! s) = g_idx) [0..<length ss]"

definition cp_feasible ::
  "DesignParameters \<Rightarrow> bool \<Rightarrow> nat \<Rightarrow> (int \<times> int \<times> string) list \<Rightarrow> (nat \<Rightarrow> int \<times> int) \<Rightarrow> bool" where
  \<comment> \<open>the constraints the code posts: variable domains, the position variables and the
      \<open>AllDifferent\<close> over them, non-adjacency of samples of one gene and, in the full model
      only, distinct rows and distinct columns for a gene with few enough replicates\<close>
  "cp_feasible p relaxed num_genes ss val =
     (list_all (\<lambda>s. edge p \<le> fst (val s) \<and> fst (val s) \<le> rows p - edge p - 1
                   \<and> edge p \<le> snd (val s) \<and> snd (val s) \<le> cols p - edge p - 1
                   \<and> 0 \<le> fst (val s) * cols p + snd (val s)
                   \<and> fst (val s) * cols p + snd (val s) \<le> rows p * cols p - 1) [0..<length ss]
      \<and> distinct (map (\<lambda>s. fst (val s) * cols p + snd (val s)) [0..<length ss])
      \<and> list_all (\<lambda>g_idx.
           list_all (\<lambda>s1. list_all (\<lambda>s2. s1 < s2 \<longrightarrow>
               2 \<le> \<bar>fst (val s1) - fst (val s2)\<bar> \<or> 2 \<le> \<bar>snd (val s1) - snd (val s2)\<bar>)
             (same_gene_samples ss g_idx)) (same_gene_samples ss g_idx))
           (map int [0..<num_genes])
      \<and> (\<not> relaxed \<longrightarrow>
           list_all (\<lambda>g_idx.
             let gene_samples = same_gene_samples ss g_idx; gene_reps = int (length gene_samples)
             in gene_reps \<le> 1
                \<or> ((gene_reps \<le> inner_rows p \<longrightarrow> distinct (map (\<lambda>s. fst (val s)) gene_samples))
                   \<and> (gene_reps \<le> inner_cols p \<longrightarrow> distinct (map (\<lambda>s. snd (val s)) gene_samples))))
             (map int [0..<num_genes])))"

definition engine_sound :: "DesignParameters \<Rightarrow> engine \<Rightarrow> bool" where
  \<comment> \<open>an answer \<open>OPTIMAL\<close> or \<open>FEASIBLE\<close> comes with values that satisfy the posted model\<close>
  "engine_sound p eng =
     (\<forall>plate_idx relaxed genes timeout st val.
        eng plate_idx relaxed (samples p genes) timeout = Reply st val \<and> (st = OPTIMAL \<or> st = FEASIBLE)
        \<longrightarrow> cp_feasible p relaxed (length genes) (samples p genes) val)"

subsection \<open>Solution extraction\<close>

definition extract_solution_from_vars ::
  "DesignParameters \<Rightarrow> (nat \<Rightarrow> int \<times> int) \<Rightarrow> (int \<times> int \<times> string) list \<Rightarrow> SourcePlate \<Rightarrow> int
   \<Rightarrow> PlateLayout" where
  "extract_solution_from_vars p val ss sp plate_idx =
     make_layout p plate_idx
       (edge_wells p
        @ map (\<lambda>(s, (g_idx, rep, gene)). sample_well sp (fst (val s)) (snd (val s)) gene rep)
            (enumerate 0 ss)
        @ remaining_wells p (map val [0..<length ss]))"

subsection \<open>The heuristic fallback\<close>

text \<open>
  \<open>placement\<close> is a dictionary from \<open>(r, c)\<close> to \<open>(gene, rep)\<close>.  The code inserts a key only
  after testing that it is absent and later iterates over the items, so the dictionary is
  the list of its items in insertion order.
\<close>

type_synonym placement = "((int \<times> int) \<times> (string \<times> int)) list"

definition occupied :: "placement \<Rightarrow> int \<times> int \<Rightarrow> bool" where
  \<comment> \<open>\<open>(r, c) in placement\<close>\<close>
  "occupied pl pos = (pos \<in> set (map fst pl))"

definition neighbours8 :: "(int \<times> int) list" where
  "neighbours8 = [(-1, -1), (-1, 0), (-1, 1), (0, -1), (0, 1), (1, -1), (1, 0), (1, 1)]"

definition has_adjacent_same_gene :: "int \<Rightarrow> int \<Rightarrow> string \<Rightarrow> placement \<Rightarrow> bool" where
  "has_adjacent_same_gene r c gene pl =
     list_ex (\<lambda>(dr, dc). case map_of pl (r + dr, c + dc) of
                            Some (g, rep) \<Rightarrow> g = gene
                          | None \<Rightarrow> False) neighbours8"

definition golden_ratio :: double where
  \<comment> \<open>the literal \<open>1.618033988749895\<close>\<close>
  "golden_ratio = round_double (1618033988749895 / 10 ^ 15)"

definition row_offset :: "DesignParameters \<Rightarrow> int \<Rightarrow> int \<Rightarrow> py_error + int" where
  \<comment> \<open>\<open>int((g_idx * golden_ratio + rep * golden_ratio * golden_ratio) * inner_rows) % inner_rows\<close>\<close>
  "row_offset p g_idx rep =
     (case py_float g_idx of Inl e \<Rightarrow> Inl e | Inr g \<Rightarrow>
      case py_float rep of Inl e \<Rightarrow> Inl e | Inr r \<Rightarrow>
      case py_float (inner_rows p) of Inl e \<Rightarrow> Inl e | Inr n \<Rightarrow>
      case py_int (fmul (fadd (fmul g golden_ratio) (fmul (fmul r golden_ratio) golden_ratio)) n) of
        Inl e \<Rightarrow> Inl e
      | Inr i \<Rightarrow> if inner_rows p = 0 then Inl ZeroDivisionError else Inr (i mod inner_rows p))"

definition col_offset :: "DesignParameters \<Rightarrow> int \<Rightarrow> int \<Rightarrow> py_error + int" where
  \<comment> \<open>\<open>int((g_idx * golden_ratio * golden_ratio + rep * golden_ratio) * inner_cols) % inner_cols\<close>\<close>
  "col_offset p g_idx rep =
     (case py_float g_idx of Inl e \<Rightarrow> Inl e | Inr g \<Rightarrow>
      case py_float rep of Inl e \<Rightarrow> Inl e | Inr r \<Rightarrow>
      case py_float (inner_cols p) of Inl e \<Rightarrow> Inl e | Inr n \<Rightarrow>
      case py_int (fmul (fadd (fmul (fmul g golden_ratio) golden_ratio) (fmul r golden_ratio)) n) of
        Inl e \<Rightarrow> Inl e
      | Inr i \<Rightarrow> if inner_cols p = 0 then Inl ZeroDivisionError else Inr (i mod inner_cols p))"

text \<open>
  The spiral search.  The state of the three nested loops is the dictionary and the flag
  \<open>placed\<close>; \<open>t\<close> is \<open>(target_r, target_c)\<close>.
\<close>

fun scan_dc ::
  "DesignParameters \<Rightarrow> string \<Rightarrow> int \<Rightarrow> int \<times> int \<Rightarrow> int \<Rightarrow> int \<Rightarrow> int list \<Rightarrow> placement
   \<Rightarrow> placement \<times> bool" where
  "scan_dc p gene rep t radius dr [] pl = (pl, False)"
| "scan_dc p gene rep t radius dr (dc # dcs) pl =
     (if \<bar>dr\<bar> \<noteq> radius \<and> \<bar>dc\<bar> \<noteq> radius then scan_dc p gene rep t radius dr dcs pl
      else let r = fst t + dr; c = snd t + dc in
        if r < edge p \<or> r \<ge> rows p - edge p then scan_dc p gene rep t radius dr dcs pl
        else if c < edge p \<or> c \<ge> cols p - edge p then scan_dc p gene rep t radius dr dcs pl
        else if occupied pl (r, c) then scan_dc p gene rep t radius dr dcs pl
        else if \<not> has_adjacent_same_gene r c gene pl then (pl @ [((r, c), (gene, rep))], True)
        else scan_dc p gene rep t radius dr dcs pl)"

fun scan_dr ::
  "DesignParameters \<Rightarrow> string \<Rightarrow> int \<Rightarrow> int \<times> int \<Rightarrow> int \<Rightarrow> int list \<Rightarrow> placement \<times> bool
   \<Rightarrow> placement \<times> bool" where
  "scan_dr p gene rep t radius [] st = st"
| "scan_dr p gene rep t radius (dr # drs) (pl, placed) =
     (if placed then (pl, placed)
      else scan_dr p gene rep t radius drs
             (scan_dc p gene rep t radius dr (py_range (- radius) (radius + 1)) pl))"

fun scan_radius ::
  "DesignParameters \<Rightarrow> string \<Rightarrow> int \<Rightarrow> int \<times> int \<Rightarrow> int list \<Rightarrow> placement \<times> bool
   \<Rightarrow> placement \<times> bool" where
  "scan_radius p gene rep t [] st = st"
| "scan_radius p gene rep t (radius # radii) (pl, placed) =
     (if placed then (pl, placed)
      else scan_radius p gene rep t radii
             (scan_dr p gene rep t radius (py_range (- radius) (radius + 1)) (pl, placed)))"

text \<open>The loops after "if not placed": the first free inner well in row-major order.\<close>

fun force_c :: "string \<Rightarrow> int \<Rightarrow> int \<Rightarrow> int list \<Rightarrow> placement \<Rightarrow> placement \<times> bool" where
  "force_c gene rep r [] pl = (pl, False)"
| "force_c gene rep r (c # cs) pl =
     (if \<not> occupied pl (r, c) then (pl @ [((r, c), (gene, rep))], True)
      else force_c gene rep r cs pl)"

fun force_r ::
  "DesignParameters \<Rightarrow> string \<Rightarrow> int \<Rightarrow> int list \<Rightarrow> placement \<times> bool \<Rightarrow> placement \<times> bool" where
  "force_r p gene rep [] st = st"
| "force_r p gene rep (r # rs) (pl, placed) =
     (if placed then (pl, placed)
      else force_r p gene rep rs (force_c gene rep r (py_range (edge p) (cols p - edge p)) pl))"

definition place_near ::
  "DesignParameters \<Rightarrow> string \<Rightarrow> int \<Rightarrow> int \<times> int \<Rightarrow> placement \<Rightarrow> placement" where
  \<comment> \<open>the search around the target followed by the forced placement\<close>
  "place_near p gene rep t pl =
     (let st = scan_radius p gene rep t (py_range 0 (max (inner_rows p) (inner_cols p))) (pl, False)
      in if snd st then fst st
         else fst (force_r p gene rep (py_range (edge p) (rows p - edge p)) (fst st, False)))"

definition place_sample ::
  "DesignParameters \<Rightarrow> int \<Rightarrow> string \<Rightarrow> int \<Rightarrow> placement \<Rightarrow> py_error + placement" where
  \<comment> \<open>the body of the loop over \<open>rep\<close>: the target, then the search\<close>
  "place_sample p g_idx gene rep pl =
     (case row_offset p g_idx rep of Inl e \<Rightarrow> Inl e | Inr ro \<Rightarrow>
      case col_offset p g_idx rep of Inl e \<Rightarrow> Inl e | Inr co \<Rightarrow>
      Inr (place_near p gene rep (edge p + ro, edge p + co) pl))"

fun place_all ::
  "DesignParameters \<Rightarrow> (int \<times> int \<times> string) list \<Rightarrow> placement \<Rightarrow> py_error + placement" where
  \<comment> \<open>the loops over \<open>enumerate(genes)\<close> and \<open>range(gene_reps)\<close>, run over the list
      of their iterations\<close>
  "place_all p [] pl = Inr pl"
| "place_all p ((g_idx, rep, gene) # rest) pl =
     (case place_sample p g_idx gene rep pl of
        Inl e \<Rightarrow> Inl e
      | Inr pl' \<Rightarrow> place_all p rest pl')"

definition solve_heuristic_improved ::
  "DesignParameters \<Rightarrow> string list \<Rightarrow> SourcePlate \<Rightarrow> int \<Rightarrow> py_error + PlateLayout" where
  "solve_heuristic_improved p genes sp plate_idx =
     (case place_all p (samples p genes) [] of
        Inl e \<Rightarrow> Inl e
      | Inr pl \<Rightarrow>
          Inr (make_layout p plate_idx
                 (edge_wells p
                  @ map (\<lambda>((r, c), (gene, rep)). sample_well sp r c gene rep) pl
                  @ remaining_wells p (map fst pl))))"

subsection \<open>The three tiers\<close>

definition solve_relaxed ::
  "engine \<Rightarrow> DesignParameters \<Rightarrow> string list \<Rightarrow> SourcePlate \<Rightarrow> int \<Rightarrow> int \<Rightarrow> py_error + PlateLayout" where
  \<comment> \<open>the quotients \<open>num_samples / inner_rows\<close> and \<open>num_samples / inner_cols\<close> raise on
      a zero divisor before the engine is called\<close>
  "solve_relaxed eng p genes sp plate_idx timeout_seconds =
     (if inner_rows p = 0 \<or> inner_cols p = 0 then Inl ZeroDivisionError
      else case eng plate_idx True (samples p genes) timeout_seconds of
             Raises \<Rightarrow> Inl EngineError
           | Reply st val \<Rightarrow>
               if st = OPTIMAL \<or> st = FEASIBLE
               then Inr (extract_solution_from_vars p val (samples p genes) sp plate_idx)
               else solve_heuristic_improved p genes sp plate_idx)"

definition solve_single_plate_cpsat ::
  "engine \<Rightarrow> DesignParameters \<Rightarrow> string list \<Rightarrow> SourcePlate \<Rightarrow> int \<Rightarrow> int \<Rightarrow> py_error + PlateLayout" where
  "solve_single_plate_cpsat eng p genes sp plate_idx timeout_seconds =
     (if length (samples p genes) > length (inner_positions p)
      then solve_heuristic_improved p genes sp plate_idx
      else if inner_rows p = 0 \<or> inner_cols p = 0 then Inl ZeroDivisionError
      else case eng plate_idx False (samples p genes) timeout_seconds of
             Raises \<Rightarrow> Inl EngineError
           | Reply st val \<Rightarrow>
               if st = OPTIMAL \<or> st = FEASIBLE
               then Inr (extract_solution_from_vars p val (samples p genes) sp plate_idx)
               else solve_relaxed eng p genes sp plate_idx timeout_seconds)"

definition py_slice :: "'a list \<Rightarrow> int \<Rightarrow> int \<Rightarrow> 'a list" where
  \<comment> \<open>\<open>xs[i:j]\<close>\<close>
  "py_slice xs i j =
     (let n = int (length xs);
          i' = (if i < 0 then max (i + n) 0 else min i n);
          j' = (if j < 0 then max (j + n) 0 else min j n)
      in take (nat (j' - i')) (drop (nat i') xs))"

fun plates_loop ::
  "engine \<Rightarrow> DesignParameters \<Rightarrow> string list \<Rightarrow> SourcePlate \<Rightarrow> int \<Rightarrow> int \<Rightarrow> int \<Rightarrow> int list
   \<Rightarrow> PlateLayout list \<Rightarrow> py_error + PlateLayout list" where
  \<comment> \<open>the loop over \<open>plate_idx\<close> of \<open>_solve_with_cpsat\<close>\<close>
  "plates_loop eng p genes sp num_plates timeout_seconds genes_per_plate [] acc = Inr acc"
| "plates_loop eng p genes sp num_plates timeout_seconds genes_per_plate (plate_idx # rest) acc =
     (let start = plate_idx * genes_per_plate;
          end = min (start + genes_per_plate) (int (length genes));
          plate_genes = py_slice genes start end
      in if plate_genes \<noteq> [] then
           (case solve_single_plate_cpsat eng p plate_genes sp plate_idx
                   (timeout_seconds div num_plates) of
              Inl e \<Rightarrow> Inl e
            | Inr layout \<Rightarrow>
                plates_loop eng p genes sp num_plates timeout_seconds genes_per_plate rest
                  (acc @ [layout]))
         else plates_loop eng p genes sp num_plates timeout_seconds genes_per_plate rest acc)"

definition solve_with_cpsat ::
  "engine \<Rightarrow> DesignParameters \<Rightarrow> string list \<Rightarrow> SourcePlate \<Rightarrow> int \<Rightarrow> int
   \<Rightarrow> py_error + PlateLayout list" where
  "solve_with_cpsat eng p genes sp num_plates timeout_seconds =
     (if num_plates = 1 then
        (case solve_single_plate_cpsat eng p genes sp 0 timeout_seconds of
           Inl e \<Rightarrow> Inl e
         | Inr layout \<Rightarrow> Inr [layout])
      else case ceil_div (int (length genes)) num_plates of
             Inl e \<Rightarrow> Inl e
           | Inr genes_per_plate \<Rightarrow>
               plates_loop eng p genes sp num_plates timeout_seconds genes_per_plate
                 (py_range 0 num_plates) [])"

subsection \<open>Validation\<close>

definition pos_map :: "PlateLayout \<Rightarrow> (int \<times> int) \<rightharpoonup> LayoutWell" where
  \<comment> \<open>the dictionary comprehension: a later well replaces an earlier one at the same key\<close>
  "pos_map layout = map_of (rev (map (\<lambda>w. ((row w, col w), w)) (wells layout)))"

definition sorted_pair :: "string \<Rightarrow> string \<Rightarrow> string \<times> string" where
  \<comment> \<open>\<open>tuple(sorted([a, b]))\<close>\<close>
  "sorted_pair a b = (if b < a then (b, a) else (a, b))"

definition check_neighbour ::
  "PlateLayout \<Rightarrow> LayoutWell \<Rightarrow> int \<times> int
   \<Rightarrow> (string \<times> string) list \<times> ConstraintViolation list
   \<Rightarrow> (string \<times> string) list \<times> ConstraintViolation list" where
  \<comment> \<open>one iteration of the loop over the eight offsets; the state is \<open>checked\<close> and
      \<open>violations\<close>\<close>
  "check_neighbour layout well d st =
     (case pos_map layout (row well + fst d, col well + snd d) of
        None \<Rightarrow> st
      | Some neighbor \<Rightarrow>
          if content_type neighbor = SAMPLE \<and> gene_symbol neighbor = gene_symbol well then
            (let pair = sorted_pair (position well) (position neighbor)
             in if pair \<notin> set (fst st) then
                  (fst st @ [pair],
                   snd st @ [\<lparr>constraint_name = ''no_adjacent_same_gene'',
                              description = AdjacentText (the (gene_symbol well)) (fst pair) (snd pair),
                              severity = ''warning'',
                              affected_wells = [fst pair, snd pair]\<rparr>])
                else st)
          else st)"

definition check_no_adjacent :: "PlateLayout \<Rightarrow> ConstraintViolation list" where
  "check_no_adjacent layout =
     snd (fold (\<lambda>well st.
                  if content_type well = SAMPLE \<and> truthy (gene_symbol well)
                  then fold (check_neighbour layout well) neighbours8 st
                  else st)
            (wells layout) ([], []))"

definition quadrant_counts :: "DesignParameters \<Rightarrow> PlateLayout \<Rightarrow> int list" where
  "quadrant_counts p layout =
     fold (\<lambda>well quadrants.
             if content_type well = SAMPLE then
               (let q = (if row well < rows p div 2 then 0 else 2)
                        + (if col well < cols p div 2 then 0 else 1)
                in quadrants[q := quadrants ! q + 1])
             else quadrants)
       (wells layout) [0, 0, 0, 0]"

definition check_quadrant_balance :: "DesignParameters \<Rightarrow> PlateLayout \<Rightarrow> ConstraintViolation list" where
  "check_quadrant_balance p layout =
     (let quadrants = quadrant_counts p layout;
          lo = fold min quadrants (hd quadrants);
          hi = fold max quadrants (hd quadrants)
      in if lo > 0 \<and> hi - lo > 5 then
           [\<lparr>constraint_name = ''quadrant_balance'', description = QuadrantText quadrants,
             severity = ''warning'', affected_wells = []\<rparr>]
         else [])"

definition validate_layouts :: "DesignParameters \<Rightarrow> PlateLayout list \<Rightarrow> ConstraintViolation list" where
  "validate_layouts p ls =
     concat (map (\<lambda>layout. check_no_adjacent layout @ check_quadrant_balance p layout) ls)"

subsection \<open>\<open>ConstraintSolver.solve\<close>\<close>

definition total_needed :: "DesignParameters \<Rightarrow> string list \<Rightarrow> int" where
  "total_needed p genes =
     sum_list (map (get_replicates_for_gene p) genes) + sum_list (map c_count (controls p))"

definition solve_attempt ::
  "engine \<Rightarrow> DesignParameters \<Rightarrow> string list \<Rightarrow> SourcePlate \<Rightarrow> int \<Rightarrow> int \<Rightarrow> int \<Rightarrow> SolveResult" where
  \<comment> \<open>the \<open>try\<close> block with its handler; \<open>solve_time\<close> is the elapsed time read from the
      clock\<close>
  "solve_attempt eng p genes sp num_plates timeout_seconds solve_time =
     (case solve_with_cpsat eng p genes sp num_plates timeout_seconds of
        Inl e \<Rightarrow>
          \<lparr>status = FAILED, layouts = [], violations = [], relaxed_constraints = [],
           solve_time_ms = 0, message = Some (SolverError e)\<rparr>
      | Inr ls \<Rightarrow>
          if ls \<noteq> [] then
            (let vs = validate_layouts p ls
             in if list_ex (\<lambda>v. severity v = ''error'') vs then
                  \<lparr>status = PARTIAL, layouts = ls, violations = vs, relaxed_constraints = [],
                   solve_time_ms = solve_time, message = Some LayoutWithViolations\<rparr>
                else
                  \<lparr>status = SUCCESS, layouts = ls, violations = vs, relaxed_constraints = [],
                   solve_time_ms = solve_time, message = Some LayoutGenerated\<rparr>)
          else
            \<lparr>status = FAILED, layouts = [], violations = [], relaxed_constraints = [],
             solve_time_ms = solve_time, message = Some NoLayoutFound\<rparr>)"

definition solve ::
  "engine \<Rightarrow> DesignParameters \<Rightarrow> string list \<Rightarrow> SourcePlate \<Rightarrow> int \<Rightarrow> int \<Rightarrow> py_error + SolveResult" where
  \<comment> \<open>\<open>Inl\<close> is an exception that leaves \<open>solve\<close>: the plate count is computed before
      the \<open>try\<close>\<close>
  "solve eng p genes sp timeout_seconds solve_time =
     (case ceil_div (total_needed p genes) (available_wells p) of
        Inl e \<Rightarrow> Inl e
      | Inr num_plates \<Rightarrow>
          if num_plates > 10 then
            Inr \<lparr>status = FAILED, layouts = [], violations = [], relaxed_constraints = [],
                 solve_time_ms = 0, message = Some (TooManyPlates num_plates)\<rparr>
          else Inr (solve_attempt eng p genes sp num_plates timeout_seconds solve_time))"

section \<open>Auxiliary notions for the proofs\<close>

definition round_val :: "rat \<Rightarrow> rat" where
  \<comment> \<open>the rounded magnitude before the overflow test of \<open>round_mag\<close>\<close>
  "round_val x = of_int (round_half_even (x / 2 powi (max (ilog2 x) (- 1022) - 52)))
                   * 2 powi (max (ilog2 x) (- 1022) - 52)"

fun dnum :: "double \<Rightarrow> rat" where
  \<comment> \<open>a number for every double that is not \<open>NaN\<close>, monotone in the double\<close>
  "dnum (Finite y) = y"
| "dnum PosInf = 2 powi 1024"
| "dnum NegInf = - (2 powi 1024)"
| "dnum NaN = 0"

definition inner_set :: "DesignParameters \<Rightarrow> (int \<times> int) set" where
  "inner_set p = {(r, c). edge p \<le> r \<and> r < rows p - edge p \<and> edge p \<le> c \<and> c < cols p - edge p}"

definition coord :: "LayoutWell \<Rightarrow> int \<times> int" where
  "coord w = (row w, col w)"

definition all_positions :: "DesignParameters \<Rightarrow> (int \<times> int) list" where
  "all_positions p = [(r, c). r \<leftarrow> py_range 0 (rows p), c \<leftarrow> py_range 0 (cols p)]"

definition good_keys :: "DesignParameters \<Rightarrow> (int \<times> int) list \<Rightarrow> bool" where
  "good_keys p keys = (distinct keys \<and> set keys \<subseteq> inner_set p)"

definition tiles :: "DesignParameters \<Rightarrow> PlateLayout \<Rightarrow> bool" where
  "tiles p layout = (distinct (map coord (wells layout))
                     \<and> set (map coord (wells layout)) = set (all_positions p))"

definition edge_clear :: "DesignParameters \<Rightarrow> PlateLayout \<Rightarrow> bool" where
  "edge_clear p layout = (\<forall>w \<in> set (wells layout). on_edge p (row w) (col w) \<longrightarrow> content_type w = EMPTY)"

definition placed_step :: "DesignParameters \<Rightarrow> string \<Rightarrow> int \<Rightarrow> placement \<Rightarrow> placement \<times> bool \<Rightarrow> bool" where
  "placed_step p gene rep pl st =
     (if snd st then \<exists>pos. fst st = pl @ [(pos, (gene, rep))] \<and> \<not> occupied pl pos \<and> pos \<in> inner_set p
      else fst st = pl)"

definition plain :: "PlateLayout \<Rightarrow> bool" where
  "plain layout = (\<forall>w \<in> set (wells layout). content_type w = SAMPLE \<or> content_type w = EMPTY)"

definition shell_row :: "int \<times> int \<Rightarrow> int \<Rightarrow> int \<Rightarrow> int list \<Rightarrow> (int \<times> int) list" where
  "shell_row t radius dr dcs =
     concat (map (\<lambda>dc. if max \<bar>dr\<bar> \<bar>dc\<bar> = radius then [(fst t + dr, snd t + dc)] else []) dcs)"

definition found :: "string \<Rightarrow> int \<Rightarrow> placement \<Rightarrow> (int \<times> int) option \<Rightarrow> placement \<times> bool" where
  "found gene rep pl choice =
     (case choice of Some pos \<Rightarrow> (pl @ [(pos, (gene, rep))], True) | None \<Rightarrow> (pl, False))"

section \<open>Example inputs\<close>

definition demo_source :: SourcePlate where
  "demo_source = \<lparr>barcode = ''SRC1'', sp_plate_type = ''384PP_AQ_BP'',
                   sp_wells = [\<lparr>sw_position = ''A01'', sw_gene_symbol = ''GeneA'',
                                sw_volume = None, sw_concentration = None\<rparr>]\<rparr>"

definition override_design :: DesignParameters where
  \<comment> \<open>the default design with a per-gene volume of 5 nL for \<open>GeneA\<close>\<close>
  "override_design =
     \<lparr>plate_type = PLATE_96, replicates = 6, edge_empty_layers = 1, distribution = UNIFORM,
      controls = [], transfer_volume = Finite (5 / 2),
      gene_configs = [''GeneA'' \<mapsto> \<lparr>gc_gene_symbol = ''GeneA'', gc_replicates = 6,
                                         gc_transfer_volume = Finite 5\<rparr>]\<rparr>"

definition one_well_layout :: PlateLayout where
  "one_well_layout =
     \<lparr>plate_barcode = ''plate_1'', pl_plate_type = PLATE_96, plate_index = 0,
      wells = [\<lparr>position = ''B02'', row = 1, col = 1, content_type = SAMPLE,
                gene_symbol = Some ''GeneA'', replicate_index = Some 0,
                source_plate = Some ''SRC1'', source_well = Some ''A01''\<rparr>]\<rparr>"


definition demo_design :: DesignParameters where
  \<comment> \<open>a 96-well plate, two replicates per gene, one empty edge layer, no controls\<close>
  "demo_design =
     \<lparr>plate_type = PLATE_96, replicates = 2, edge_empty_layers = 1, distribution = UNIFORM,
      controls = [], transfer_volume = Finite (5 / 2), gene_configs = Map.empty\<rparr>"

definition control_design :: DesignParameters where
  \<comment> \<open>the same design with two positive controls requested\<close>
  "control_design =
     demo_design\<lparr>controls := [\<lparr>c_type = POSITIVE, c_name = ''PC'', c_count = 2,
                                c_source_well = None\<rparr>]\<rparr>"

definition heavy_design :: DesignParameters where
  \<comment> \<open>61 replicates per gene: one more than the 60 inner wells of the plate\<close>
  "heavy_design = demo_design\<lparr>replicates := 61\<rparr>"

definition huge_design :: DesignParameters where
  \<comment> \<open>601 replicates per gene: more than ten plates\<close>
  "huge_design = demo_design\<lparr>replicates := 601\<rparr>"

definition demo_values :: "nat \<Rightarrow> int \<times> int" where
  "demo_values s = (1 + 2 * int s, 1 + 2 * int s)"

definition demo_engine :: engine where
  \<comment> \<open>an engine that solves the model of two replicates of \<open>GeneA\<close> and gives up on
      every other model\<close>
  "demo_engine plate_idx relaxed ss timeout_seconds =
     (if ss = [(0, 0, ''GeneA''), (0, 1, ''GeneA'')] then Reply OPTIMAL demo_values
      else Reply UNKNOWN (\<lambda>s. (0, 0)))"

definition timeout_engine :: engine where
  \<comment> \<open>an engine that never finds a solution in time\<close>
  "timeout_engine plate_idx relaxed ss timeout_seconds = Reply UNKNOWN (\<lambda>s. (0, 0))"

definition demo_layout :: PlateLayout where
  "demo_layout =
     extract_solution_from_vars demo_design demo_values (samples demo_design [''GeneA''])
       demo_source 0"

definition demo_result :: SolveResult where
  "demo_result = solve_attempt demo_engine demo_design [''GeneA''] demo_source 1 30 7"


definition fallback_layout :: PlateLayout where
  "fallback_layout = projr (solve_heuristic_improved demo_design [''GeneA''] demo_source 0)"

definition fallback_result :: SolveResult where
  "fallback_result = solve_attempt timeout_engine demo_design [''GeneA''] demo_source 1 30 7"

definition heavy_layout :: PlateLayout where
  "heavy_layout = projr (solve_heuristic_improved heavy_design [''GeneA''] demo_source 0)"

definition heavy_result :: SolveResult where
  "heavy_result = solve_attempt timeout_engine heavy_design [''GeneA''] demo_source 2 30 7"

section \<open>The placement policy in the words of the specification\<close>

text \<open>
  Arithmetic on doubles: \<open>phi\<close> is the double written \<open>1.618033988749895\<close>, and a
  product or a sum of two doubles is the exact result rounded to the nearest double.
\<close>

definition phi :: rat where
  "phi = dnum (round_double (1618033988749895 / 10 ^ 15))"

definition dmul :: "rat \<Rightarrow> rat \<Rightarrow> rat" where
  "dmul a b = dnum (round_double (a * b))"

definition dadd :: "rat \<Rightarrow> rat \<Rightarrow> rat" where
  "dadd a b = dnum (round_double (a + b))"

definition target_row :: "DesignParameters \<Rightarrow> int \<Rightarrow> int \<Rightarrow> int" where
  \<comment> \<open>\<open>r* = edge + (\<lfloor>(g_idx\<cdot>\<phi> + rep_idx\<cdot>\<phi>\<^sup>2)\<cdot>inner_rows\<rfloor> mod inner_rows)\<close>\<close>
  "target_row p g_idx rep_idx =
     edge p + \<lfloor>dmul (dadd (dmul (of_int g_idx) phi) (dmul (dmul (of_int rep_idx) phi) phi))
                   (of_int (inner_rows p))\<rfloor> mod inner_rows p"

definition target_col :: "DesignParameters \<Rightarrow> int \<Rightarrow> int \<Rightarrow> int" where
  \<comment> \<open>\<open>c* = edge + (\<lfloor>(g_idx\<cdot>\<phi>\<^sup>2 + rep_idx\<cdot>\<phi>)\<cdot>inner_cols\<rfloor> mod inner_cols)\<close>\<close>
  "target_col p g_idx rep_idx =
     edge p + \<lfloor>dmul (dadd (dmul (dmul (of_int g_idx) phi) phi) (dmul (of_int rep_idx) phi))
                   (of_int (inner_cols p))\<rfloor> mod inner_cols p"

definition shell :: "int \<times> int \<Rightarrow> int \<Rightarrow> (int \<times> int) list" where
  \<comment> \<open>the wells at Chebyshev distance \<open>radius\<close> from \<open>t\<close>, row by row\<close>
  "shell t radius =
     [(fst t + dr, snd t + dc). dr \<leftarrow> py_range (- radius) (radius + 1),
                                dc \<leftarrow> py_range (- radius) (radius + 1),
                                max \<bar>dr\<bar> \<bar>dc\<bar> = radius]"

definition acceptable :: "DesignParameters \<Rightarrow> string \<Rightarrow> placement \<Rightarrow> int \<times> int \<Rightarrow> bool" where
  \<comment> \<open>an inner well that is unoccupied and has no well of the same label among its eight
      neighbours\<close>
  "acceptable p label pl pos =
     (pos \<in> set (inner_positions p) \<and> \<not> occupied pl pos
      \<and> \<not> has_adjacent_same_gene (fst pos) (snd pos) label pl)"

definition policy_choice ::
  "DesignParameters \<Rightarrow> string \<Rightarrow> placement \<Rightarrow> int \<times> int \<Rightarrow> (int \<times> int) option" where
  \<comment> \<open>the first acceptable well over the shells of increasing radius; failing that, the
      first free inner well in row-major order\<close>
  "policy_choice p label pl t =
     (case find (acceptable p label pl)
             (concat (map (shell t) (py_range 0 (max (inner_rows p) (inner_cols p))))) of
        Some pos \<Rightarrow> Some pos
      | None \<Rightarrow> find (\<lambda>pos. \<not> occupied pl pos) (inner_positions p))"


section \<open>Rounding to double: monotonicity and exactness\<close>

lemma rhe_of_int: "round_half_even (of_int k) = k"
  by (simp add: round_half_even_def)

lemma rhe_bounds: "of_int (round_half_even x) \<le> x + 1 / 2" "x - 1 / 2 \<le> of_int (round_half_even x)"
  unfolding round_half_even_def Let_def
  by (auto simp: not_less) linarith+

lemma rhe_floor_le: "\<lfloor>x\<rfloor> \<le> round_half_even x" "round_half_even x \<le> \<lfloor>x\<rfloor> + 1"
  unfolding round_half_even_def Let_def by auto

lemma rhe_mono: "x \<le> y \<Longrightarrow> round_half_even x \<le> round_half_even y"
proof -
  assume xy: "x \<le> y"
  have fl: "\<lfloor>x\<rfloor> \<le> \<lfloor>y\<rfloor>" using xy by (rule floor_mono)
  show ?thesis
  proof (cases "\<lfloor>x\<rfloor> = \<lfloor>y\<rfloor>")
    case True
    then show ?thesis using xy unfolding round_half_even_def Let_def by auto
  next
    case False
    with fl have "\<lfloor>x\<rfloor> + 1 \<le> \<lfloor>y\<rfloor>" by simp
    with rhe_floor_le(2)[of x] rhe_floor_le(1)[of y] show ?thesis by linarith
  qed
qed

lemma ilog2_ge1:
  assumes "1 \<le> x"
  shows "2 powi (ilog2 x) \<le> x" "x < 2 powi (ilog2 x + 1)"
proof -
  define n where "n = nat \<lfloor>x\<rfloor>"
  define k where "k = floorlog 2 n"
  have n1: "1 \<le> n" using assms unfolding n_def by linarith
  have "int n = \<lfloor>x\<rfloor>" using assms unfolding n_def by simp
  then have "(of_nat n :: rat) = of_int \<lfloor>x\<rfloor>" by (metis of_int_of_nat_eq)
  then have nx: "of_nat n \<le> x" "x < of_nat n + 1"
    by (simp_all) linarith
  from floorlog_bounds[of n 2] n1 have b: "2 ^ (k - 1) \<le> n" "n < 2 ^ k"
    unfolding k_def by auto
  have k1: "1 \<le> k" using n1 unfolding k_def
    by (metis One_nat_def Suc_leI floorlog_eq_zero_iff less_numeral_extra(1) linorder_not_less
        not_gr_zero not_numeral_less_one one_less_numeral_iff semiring_norm(76))
  have il: "ilog2 x = int k - 1" using assms by (simp add: ilog2_def k_def n_def)
  have "(2::rat) powi (int k - 1) = 2 ^ (k - 1)"
    using k1 by (metis of_nat_1 of_nat_diff power_int_of_nat)
  also have "\<dots> = of_nat (2 ^ (k - 1))" by simp
  also have "\<dots> \<le> of_nat n" using b(1) by (simp only: of_nat_le_iff)
  finally show "2 powi (ilog2 x) \<le> x" using nx il by simp
  have "n + 1 \<le> 2 ^ k" using b(2) by simp
  then have "(of_nat (n + 1) :: rat) \<le> of_nat (2 ^ k)" by (simp only: of_nat_le_iff)
  then have "of_nat n + 1 \<le> (of_nat (2 ^ k) :: rat)" by simp
  then have "x < 2 ^ k" using nx by simp
  then show "x < 2 powi (ilog2 x + 1)" using il by simp
qed

lemma ilog2_lt1:
  assumes "0 < x" "x < 1"
  shows "2 powi (ilog2 x) \<le> x" "x < 2 powi (ilog2 x + 1)"
proof -
  define y where "y = 1 / x"
  define m where "m = nat (\<lceil>y\<rceil> - 1)"
  define k where "k = floorlog 2 m"
  have y1: "1 < y" using assms unfolding y_def by simp
  then have c2: "2 \<le> \<lceil>y\<rceil>" by linarith
  then have m1: "1 \<le> m" unfolding m_def by linarith
  have "int m = \<lceil>y\<rceil> - 1" using c2 unfolding m_def by simp
  then have "(of_nat m :: rat) = of_int \<lceil>y\<rceil> - 1" by (metis of_int_of_nat_eq of_int_diff of_int_1)
  then have my: "of_nat m < y" "y \<le> of_nat m + 1"
    by (simp_all) linarith+
  from floorlog_bounds[of m 2] m1 have b: "2 ^ (k - 1) \<le> m" "m < 2 ^ k"
    unfolding k_def by auto
  have k1: "1 \<le> k" using m1 b(2)
    by (metis One_nat_def Suc_leI less_one linorder_not_less not_gr_zero power_0)
  have il: "ilog2 x = - int k" using assms by (simp add: ilog2_def k_def m_def y_def)
  have "m + 1 \<le> 2 ^ k" using b(2) by simp
  then have "(of_nat (m + 1) :: rat) \<le> of_nat (2 ^ k)" by (simp only: of_nat_le_iff)
  then have "of_nat m + 1 \<le> (of_nat (2 ^ k) :: rat)" by simp
  then have yk: "y \<le> 2 ^ k" using my by simp
  have "(of_nat (2 ^ (k - 1)) :: rat) \<le> of_nat m" using b(1) by (simp only: of_nat_le_iff)
  then have "(2::rat) ^ (k - 1) \<le> of_nat m" by simp
  then have ky: "2 ^ (k - 1) < y" using my by linarith
  have xy: "x = 1 / y" unfolding y_def by simp
  have "(2::rat) powi (- int k) = 1 / 2 ^ k"
    by (simp add: power_int_minus field_simps)
  also have "\<dots> \<le> 1 / y" using yk y1 by (simp add: frac_le)
  finally show "2 powi (ilog2 x) \<le> x" using il xy by simp
  have "(2::rat) powi (- int k + 1) = 1 / 2 ^ (k - 1)"
  proof -
    have eq: "- int k + 1 = - int (k - 1)" using k1 by simp
    show ?thesis unfolding eq by (simp add: power_int_minus divide_inverse)
  qed
  moreover have "1 / y < 1 / 2 ^ (k - 1)" using ky by (simp add: frac_less2)
  ultimately show "x < 2 powi (ilog2 x + 1)" using il xy by simp
qed

lemma ilog2_bounds:
  assumes "0 < x"
  shows "2 powi (ilog2 x) \<le> x" "x < 2 powi (ilog2 x + 1)"
  using assms ilog2_ge1[of x] ilog2_lt1[of x] by (cases "1 \<le> x"; simp)+

lemma powi2_mono: "a \<le> b \<Longrightarrow> (2::rat) powi a \<le> 2 powi b"
  by (rule power_int_increasing) simp_all

lemma powi2_less_iff: "(2::rat) powi a < 2 powi b \<longleftrightarrow> a < b"
  by (meson linorder_not_less one_less_numeral_iff power_int_increasing power_int_strict_increasing
      semiring_norm(76) less_imp_le)

lemma ilog2_unique:
  assumes "2 powi e \<le> x" "x < 2 powi (e + 1)"
  shows "ilog2 x = e"
proof -
  have pos: "0 < x" using assms(1) by (meson less_le_trans zero_less_numeral zero_less_power_int)
  from ilog2_bounds[OF pos] assms
  have "(2::rat) powi e < 2 powi (ilog2 x + 1)" "(2::rat) powi (ilog2 x) < 2 powi (e + 1)"
    by linarith+
  then show ?thesis by (simp add: powi2_less_iff)
qed

lemma ilog2_mono:
  assumes "0 < x" "x \<le> y"
  shows "ilog2 x \<le> ilog2 y"
proof -
  have "0 < y" using assms by simp
  from ilog2_bounds[OF assms(1)] ilog2_bounds[OF this] assms(2)
  have "(2::rat) powi (ilog2 x) < 2 powi (ilog2 y + 1)" by linarith
  then show ?thesis by (simp add: powi2_less_iff)
qed

lemma powi2_pos: "0 < (2::rat) powi a"
  by simp

lemma powi2_add: "(2::rat) powi (a + b) = 2 powi a * 2 powi b"
  by (simp add: power_int_add)

lemma powi2_diff: "(2::rat) powi (a - b) = 2 powi a / 2 powi b"
  by (simp add: power_int_diff)

lemma div_powi2_le: "x \<le> 2 powi a \<Longrightarrow> x / 2 powi b \<le> (2::rat) powi (a - b)"
  by (simp add: powi2_diff divide_right_mono)

lemma div_powi2_ge: "2 powi a \<le> x \<Longrightarrow> (2::rat) powi (a - b) \<le> x / 2 powi b"
  by (simp add: powi2_diff divide_right_mono)

lemma rhe_le_powi:
  assumes "x \<le> 2 powi a" "0 \<le> a"
  shows "of_int (round_half_even x) \<le> (2::rat) powi a"
proof -
  have "(2::rat) powi a = of_int (2 ^ nat a)" using assms(2) by (simp add: power_int_def)
  moreover from rhe_mono[OF assms(1)[unfolded calculation]]
  have "round_half_even x \<le> 2 ^ nat a" by (simp only: rhe_of_int)
  ultimately show ?thesis by (metis of_int_le_iff)
qed

lemma rhe_ge_powi:
  assumes "2 powi a \<le> x" "0 \<le> a"
  shows "(2::rat) powi a \<le> of_int (round_half_even x)"
proof -
  have "(2::rat) powi a = of_int (2 ^ nat a)" using assms(2) by (simp add: power_int_def)
  moreover from rhe_mono[OF assms(1)[unfolded calculation]]
  have "2 ^ nat a \<le> round_half_even x" by (simp only: rhe_of_int)
  ultimately show ?thesis by (metis of_int_le_iff)
qed

lemma rhe_nonneg: "0 \<le> x \<Longrightarrow> 0 \<le> round_half_even x"
  using rhe_mono[of 0 x] by (simp add: round_half_even_def)

lemma round_val_upper:
  assumes "0 < x"
  shows "round_val x \<le> 2 powi (max (ilog2 x) (- 1022) + 1)"
proof -
  define e where "e = max (ilog2 x) (- 1022)"
  have "x < 2 powi (ilog2 x + 1)" using ilog2_bounds[OF assms] by simp
  also have "\<dots> \<le> 2 powi (e + 1)" unfolding e_def by (intro powi2_mono) simp
  finally have "x / 2 powi (e - 52) \<le> 2 powi (e + 1 - (e - 52))"
    by (intro div_powi2_le) simp
  then have "x / 2 powi (e - 52) \<le> 2 powi 53" by simp
  from rhe_le_powi[OF this]
  have "of_int (round_half_even (x / 2 powi (e - 52))) * 2 powi (e - 52) \<le> 2 powi 53 * (2::rat) powi (e - 52)"
    by (intro mult_right_mono) simp_all
  also have "\<dots> = 2 powi (e + 1)"
    using powi2_add[of 53 "e - 52"] by (simp add: add.commute)
  finally show ?thesis unfolding round_val_def e_def .
qed

lemma round_val_lower:
  assumes "0 < x" "- 1022 \<le> ilog2 x"
  shows "2 powi (ilog2 x) \<le> round_val x"
proof -
  define e where "e = ilog2 x"
  have m: "max (ilog2 x) (- 1022) = e" using assms(2) unfolding e_def by simp
  have "2 powi e \<le> x" using ilog2_bounds[OF assms(1)] unfolding e_def by simp
  then have "2 powi (e - (e - 52)) \<le> x / 2 powi (e - 52)"
    by (intro div_powi2_ge)
  then have "2 powi 52 \<le> x / 2 powi (e - 52)" by simp
  from rhe_ge_powi[OF this]
  have a: "2 powi 52 * (2::rat) powi (e - 52) \<le> of_int (round_half_even (x / 2 powi (e - 52))) * 2 powi (e - 52)"
    by (intro mult_right_mono) simp_all
  have b: "2 powi 52 * (2::rat) powi (e - 52) = 2 powi e"
    using powi2_add[of 52 "e - 52"] by simp
  have c: "round_val x = of_int (round_half_even (x / 2 powi (e - 52))) * 2 powi (e - 52)"
    unfolding round_val_def m ..
  have "2 powi e \<le> round_val x" using a b c by linarith
  then show ?thesis unfolding e_def .
qed

lemma round_val_nonneg: "0 < x \<Longrightarrow> 0 \<le> round_val x"
  unfolding round_val_def by (intro mult_nonneg_nonneg) (simp_all add: rhe_nonneg)

lemma round_val_mono:
  assumes "0 < x" "x \<le> y"
  shows "round_val x \<le> round_val y"
proof -
  define ex where "ex = max (ilog2 x) (- 1022)"
  define ey where "ey = max (ilog2 y) (- 1022)"
  have y: "0 < y" using assms by simp
  have le: "ex \<le> ey" using ilog2_mono[OF assms] unfolding ex_def ey_def by simp
  show ?thesis
  proof (cases "ex = ey")
    case True
    have "x / 2 powi (ex - 52) \<le> y / 2 powi (ex - 52)"
      using assms(2) by (simp add: divide_right_mono)
    from rhe_mono[OF this] show ?thesis
      unfolding round_val_def ex_def[symmetric] ey_def[symmetric] True[symmetric]
      by (intro mult_right_mono) simp_all
  next
    case False
    with le have lt: "ex + 1 \<le> ey" by simp
    then have ey': "ey = ilog2 y" "- 1022 \<le> ilog2 y" unfolding ex_def ey_def by linarith+
    have "round_val x \<le> 2 powi (ex + 1)" using round_val_upper[OF assms(1)] unfolding ex_def .
    also have "\<dots> \<le> 2 powi ey" using lt by (rule powi2_mono)
    also have "\<dots> \<le> round_val y" using round_val_lower[OF y ey'(2)] ey'(1) by simp
    finally show ?thesis .
  qed
qed

lemma round_mag_eq:
  assumes "0 < x"
  shows "round_mag x = (if 2 powi 1024 \<le> round_val x then None else Some (round_val x))"
proof -
  define e where "e = max (ilog2 x) (- 1022)"
  define n where "n = round_half_even (x / 2 powi (e - 52))"
  have rv: "round_val x = of_int n * 2 powi (e - 52)" unfolding round_val_def e_def n_def ..
  have rm: "round_mag x = (if 1023 < e \<or> (e = 1023 \<and> n = 2 ^ 53) then None else Some (round_val x))"
    unfolding round_mag_def Let_def rv e_def n_def ..
  have up: "round_val x \<le> 2 powi (e + 1)" using round_val_upper[OF assms] unfolding e_def .
  consider "1023 < e" | "e = 1023" "n = 2 ^ 53" | "e = 1023" "n \<noteq> 2 ^ 53" | "e < 1023" by linarith
  then show ?thesis
  proof cases
    case 1
    then have il: "e = ilog2 x" "- 1022 \<le> ilog2 x" unfolding e_def by linarith+
    have "(2::rat) powi 1024 \<le> 2 powi e" using 1 by (intro powi2_mono) simp
    also have "\<dots> \<le> round_val x" using round_val_lower[OF assms il(2)] il(1) by simp
    finally show ?thesis using rm 1 by simp
  next
    case 2
    have "round_val x = 2 powi 53 * 2 powi (1023 - 52)" unfolding rv 2 by simp
    also have "\<dots> = 2 powi 1024" using powi2_add[of 53 "1023 - 52"] by simp
    finally show ?thesis using rm 2 by simp
  next
    case 3
    have "x < 2 powi (ilog2 x + 1)" using ilog2_bounds[OF assms] by simp
    also have "\<dots> \<le> 2 powi (e + 1)" unfolding e_def by (intro powi2_mono) simp
    finally have "x / 2 powi (e - 52) \<le> 2 powi (e + 1 - (e - 52))"
      by (intro div_powi2_le) simp
    then have "x / 2 powi (e - 52) \<le> 2 powi 53" by simp
    from rhe_le_powi[OF this] have "of_int n \<le> (2::rat) powi 53" unfolding n_def by simp
    then have "of_int n \<le> (of_int (2 ^ 53) :: rat)" by simp
    then have "n \<le> 2 ^ 53" by (simp only: of_int_le_iff)
    with 3 have "n \<le> 2 ^ 53 - 1" by simp
    then have "(of_int n :: rat) \<le> of_int (2 ^ 53 - 1)" by (simp only: of_int_le_iff)
    then have "round_val x \<le> of_int (2 ^ 53 - 1) * 2 powi (1023 - 52)"
      unfolding rv 3 by (intro mult_right_mono) simp_all
    also have "\<dots> < 2 powi 53 * 2 powi (1023 - 52)"
      by (intro mult_strict_right_mono) simp_all
    also have "\<dots> = 2 powi 1024" using powi2_add[of 53 "1023 - 52"] by simp
    finally show ?thesis using rm 3 by simp
  next
    case 4
    have "round_val x \<le> 2 powi (e + 1)" by (rule up)
    also have "\<dots> \<le> 2 powi 1023" using 4 by (intro powi2_mono) simp
    also have "\<dots> < (2::rat) powi 1024" by (simp only: powi2_less_iff)
    finally show ?thesis using rm 4 by simp
  qed
qed

lemma round_double_pos:
  assumes "0 < x"
  shows "round_double x = (if 2 powi 1024 \<le> round_val x then PosInf else Finite (round_val x))"
  using assms by (simp add: round_double_def round_mag_eq)

lemma round_double_neg:
  assumes "x < 0"
  shows "round_double x = (if 2 powi 1024 \<le> round_val (- x) then NegInf else Finite (- round_val (- x)))"
  using assms by (simp add: round_double_def round_mag_eq)

lemma dnum_round_double_pos:
  "0 < x \<Longrightarrow> dnum (round_double x) = min (round_val x) (2 powi 1024)"
  by (simp add: round_double_pos min_def)

lemma dnum_round_double_neg:
  "x < 0 \<Longrightarrow> dnum (round_double x) = - min (round_val (- x)) (2 powi 1024)"
  by (simp add: round_double_neg min_def)

lemma dnum_round_double_nonneg: "0 \<le> x \<Longrightarrow> 0 \<le> dnum (round_double x)"
proof (cases "x = 0")
  case True then show ?thesis by (simp add: round_double_def)
next
  case False
  assume "0 \<le> x"
  with False have "0 < x" by simp
  then show ?thesis by (simp add: dnum_round_double_pos round_val_nonneg)
qed

lemma dnum_round_double_nonpos: "x \<le> 0 \<Longrightarrow> dnum (round_double x) \<le> 0"
proof (cases "x = 0")
  case True then show ?thesis by (simp add: round_double_def)
next
  case False
  assume "x \<le> 0"
  with False have "x < 0" by simp
  then show ?thesis by (simp add: dnum_round_double_neg round_val_nonneg)
qed

lemma round_double_mono:
  assumes "x \<le> y"
  shows "dnum (round_double x) \<le> dnum (round_double y)"
proof -
  consider "0 < x" | "x \<le> 0" "0 \<le> y" | "y < 0" using assms by linarith
  then show ?thesis
  proof cases
    case 1
    then have "0 < y" using assms by simp
    with 1 round_val_mono[OF 1 assms] show ?thesis
      by (simp add: dnum_round_double_pos min_def)
  next
    case 2
    then show ?thesis
      using dnum_round_double_nonneg[of y] dnum_round_double_nonpos[of x] by linarith
  next
    case 3
    then have x: "x < 0" using assms by simp
    have "round_val (- y) \<le> round_val (- x)" using 3 assms by (intro round_val_mono) simp_all
    with 3 x show ?thesis by (simp add: dnum_round_double_neg min_def)
  qed
qed

lemma round_double_cases:
  "round_double x = Finite (dnum (round_double x)) \<and> \<bar>dnum (round_double x)\<bar> < 2 powi 1024
   \<or> round_double x = PosInf \<and> 0 < x \<or> round_double x = NegInf \<and> x < 0"
proof -
  consider "0 < x" | "x = 0" | "x < 0" by linarith
  then show ?thesis
  proof cases
    case 1 then show ?thesis using round_val_nonneg[OF 1] by (simp add: round_double_pos)
  next
    case 2 then show ?thesis by (simp add: round_double_def)
  next
    case 3 then show ?thesis using round_val_nonneg[of "- x"] by (simp add: round_double_neg)
  qed
qed

lemma round_double_not_NaN [simp]: "round_double x \<noteq> NaN"
  using round_double_cases[of x] by auto

lemma round_val_exact:
  assumes "0 < k" "k < 2 ^ 53" "- 1074 \<le> j"
  shows "round_val (of_int k * 2 powi j) = of_int k * 2 powi j"
proof -
  define x :: rat where "x = of_int k * 2 powi j"
  define e where "e = max (ilog2 x) (- 1022)"
  have pos: "0 < x" unfolding x_def using assms(1) by simp
  have "(of_int k :: rat) < of_int (2 ^ 53)" using assms(2) by (simp only: of_int_less_iff)
  then have "x < 2 powi 53 * 2 powi j" unfolding x_def by (intro mult_strict_right_mono) simp_all
  also have "\<dots> = 2 powi (53 + j)" by (simp add: powi2_add)
  finally have "2 powi (ilog2 x) < (2::rat) powi (53 + j)"
    using ilog2_bounds(1)[OF pos] by linarith
  then have "ilog2 x < 53 + j" by (simp only: powi2_less_iff)
  then have d: "0 \<le> j - (e - 52)" unfolding e_def using assms(3) by simp
  define d where "d = nat (j - (e - 52))"
  have j: "j = int d + (e - 52)" unfolding d_def using d by simp
  have "x = of_int k * (2 powi (int d) * 2 powi (e - 52))"
    unfolding x_def by (subst j) (simp only: powi2_add)
  then have xd: "x = of_int (k * 2 ^ d) * 2 powi (e - 52)" by simp
  then have "x / 2 powi (e - 52) = of_int (k * 2 ^ d)" by simp
  then have "round_half_even (x / 2 powi (e - 52)) = k * 2 ^ d" by (simp only: rhe_of_int)
  then have "round_val x = of_int (k * 2 ^ d) * 2 powi (e - 52)"
    unfolding round_val_def e_def by simp
  with xd have "round_val x = x" by (simp only:)
  then show ?thesis unfolding x_def .
qed

lemma round_double_exact_pos:
  assumes "0 < k" "k < 2 ^ 53" "- 1074 \<le> j" "j \<le> 971"
  shows "round_double (of_int k * 2 powi j) = Finite (of_int k * 2 powi j)"
proof -
  have "(of_int k :: rat) < of_int (2 ^ 53)" using assms(2) by (simp only: of_int_less_iff)
  then have "of_int k * 2 powi j < 2 powi 53 * (2::rat) powi j" by (intro mult_strict_right_mono) simp_all
  also have "\<dots> = 2 powi (53 + j)" by (simp add: powi2_add)
  also have "\<dots> \<le> 2 powi 1024" using assms(4) by (intro powi2_mono) simp
  finally have "\<not> 2 powi 1024 \<le> of_int k * (2::rat) powi j" by simp
  moreover have "0 < of_int k * (2::rat) powi j" using assms(1) by simp
  ultimately show ?thesis
    using round_val_exact[OF assms(1,2,3)] by (simp add: round_double_pos)
qed

lemma round_double_exact:
  assumes "\<bar>k\<bar> < 2 ^ 53" "- 1074 \<le> j" "j \<le> 971"
  shows "round_double (of_int k * 2 powi j) = Finite (of_int k * 2 powi j)"
proof -
  consider "0 < k" | "k = 0" | "k < 0" by linarith
  then show ?thesis
  proof cases
    case 1 then show ?thesis using assms by (intro round_double_exact_pos) simp_all
  next
    case 2 then show ?thesis by (simp add: round_double_def)
  next
    case 3
    then have "round_double (of_int (- k) * 2 powi j) = Finite (of_int (- k) * 2 powi j)"
      using assms by (intro round_double_exact_pos) simp_all
    moreover have "of_int k * (2::rat) powi j < 0" using 3 by (simp add: mult_neg_pos)
    ultimately show ?thesis
      by (simp add: round_double_def split: option.splits if_splits)
  qed
qed

lemma round_double_of_int:
  assumes "\<bar>n\<bar> < 2 ^ 53"
  shows "round_double (of_int n) = Finite (of_int n)"
  using round_double_exact[OF assms, of 0] by simp

lemma round_double_pow2:
  assumes "- 1074 \<le> k" "k \<le> 1023"
  shows "round_double (2 powi k) = Finite (2 powi k)"
    and "round_double (- (2 powi k)) = Finite (- (2 powi k))"
proof -
  have rv: "round_val (2 powi k) = 2 powi k"
    using round_val_exact[of 1 k] assms(1) by simp
  have "(2::rat) powi k < 2 powi 1024"
    unfolding powi2_less_iff using assms(2) by linarith
  then have lt: "\<not> 2 powi 1024 \<le> (2::rat) powi k"
    by (simp only: not_le)
  show "round_double (2 powi k) = Finite (2 powi k)"
    using rv lt by (simp add: round_double_pos)
  have "- ((2::rat) powi k) < 0" by simp
  then show "round_double (- (2 powi k)) = Finite (- (2 powi k))"
    using rv lt by (simp add: round_double_neg)
qed

lemma round_double_bounded:
  assumes "\<bar>x\<bar> \<le> 2 powi k" "- 1074 \<le> k" "k \<le> 1023"
  shows "\<exists>y. round_double x = Finite y \<and> \<bar>y\<bar> \<le> 2 powi k \<and> (0 \<le> x \<longrightarrow> 0 \<le> y) \<and> (x \<le> 0 \<longrightarrow> y \<le> 0)"
proof -
  note ex = round_double_pow2[OF assms(2,3)]
  have up: "dnum (round_double x) \<le> 2 powi k"
    using round_double_mono[of x "2 powi k"] assms(1) ex by simp
  have lo: "- (2 powi k) \<le> dnum (round_double x)"
    using round_double_mono[of "- (2 powi k)" x] assms(1) ex by simp
  have "(2::rat) powi k < 2 powi 1024"
    unfolding powi2_less_iff using assms(3) by linarith
  with up lo have "\<bar>dnum (round_double x)\<bar> < 2 powi 1024" by linarith
  then have fin: "round_double x = Finite (dnum (round_double x))"
    using round_double_cases[of x] by auto
  show ?thesis
    using fin up lo dnum_round_double_nonneg[of x] dnum_round_double_nonpos[of x]
    by (intro exI[of _ "dnum (round_double x)"]) auto
qed

section \<open>Properties of the picklist\<close>

lemma fold_snoc_map: "fold (\<lambda>x acc. acc @ [f x]) xs ini = ini @ map f xs"
  by (induction xs arbitrary: ini) simp_all

lemma py_join_cons:
  "py_join sep (x # xs) = x @ concat (map (\<lambda>y. sep @ y) xs)"
  by (induction xs arbitrary: x) simp_all

text \<open>
  C9.  \<open>EchoPicklist.to_csv\<close> is the header line, exactly as given, followed by one line
  per entry in entry order; every line after the header is preceded by a single newline and
  nothing follows the last line.  A line is the ten fields separated by commas, and a
  \<open>compound_label\<close> or \<open>ensembl_id\<close> that is missing is written \<open>N/A\<close>.
\<close>

theorem to_csv_header_and_lines:
  "to_csv str picklist =
     ''Source Plate Barcode,Source Well,Source Plate Type,Destination Plate Barcode,Destination Plate Type,Destination Well,Transfer Volume,GENE_SYMBOL,COMPOUND_LABEL,ENSEMBL_ID''
     @ concat (map (\<lambda>entry. [CHR 0x0A] @ csv_line str entry) (entries picklist))
   \<and> csv_line str entry =
       source_plate_barcode entry @ '','' @ pe_source_well entry @ '','' @
       source_plate_type entry @ '','' @ destination_plate_barcode entry @ '','' @
       destination_plate_type entry @ '','' @ destination_well entry @ '','' @
       str (pe_transfer_volume entry) @ '','' @ pe_gene_symbol entry @ '','' @
       or_default (compound_label entry) ''N/A'' @ '','' @ or_default (ensembl_id entry) ''N/A''
   \<and> csv_line str (entry\<lparr>compound_label := None, ensembl_id := None\<rparr>) =
       source_plate_barcode entry @ '','' @ pe_source_well entry @ '','' @
       source_plate_type entry @ '','' @ destination_plate_barcode entry @ '','' @
       destination_plate_type entry @ '','' @ destination_well entry @ '','' @
       str (pe_transfer_volume entry) @ '','' @ pe_gene_symbol entry @ '',N/A,N/A''"
proof -
  have "to_csv str picklist =
          py_join [CHR 0x0A] (py_join '','' headers # map (csv_line str) (entries picklist))"
    by (simp add: to_csv_def fold_snoc_map)
  also have "\<dots> = py_join '','' headers
                 @ concat (map (\<lambda>entry. [CHR 0x0A] @ csv_line str entry) (entries picklist))"
    by (simp add: py_join_cons comp_def)
  finally have shape: "to_csv str picklist = py_join '','' headers
      @ concat (map (\<lambda>entry. [CHR 0x0A] @ csv_line str entry) (entries picklist))" .
  have header: "py_join '','' headers = ''Source Plate Barcode,Source Well,Source Plate Type,Destination Plate Barcode,Destination Plate Type,Destination Well,Transfer Volume,GENE_SYMBOL,COMPOUND_LABEL,ENSEMBL_ID''"
    by (simp add: headers_def)
  show ?thesis
    unfolding shape header by (simp add: csv_line_def or_default_def)
qed

text \<open>
  C5, as the code has it.  Every entry produced by \<open>generate_picklist\<close> carries the
  \<open>transfer_volume\<close> argument of the call; the design and its per-gene volumes are not an
  input of the function.
\<close>

theorem generate_picklist_uniform_volume:
  "entry \<in> set (entries (generate_picklist plate_layouts sp volume))
   \<Longrightarrow> pe_transfer_volume entry = volume"
  by (auto simp: generate_picklist_def picklist_well_def split: if_splits)

theorem generate_picklist_uniform_volume_witness:
  "entries (generate_picklist [one_well_layout] demo_source (Finite 375)) \<noteq> []
   \<and> hd (entries (generate_picklist [one_well_layout] demo_source (Finite 375)))
       \<in> set (entries (generate_picklist [one_well_layout] demo_source (Finite 375)))
   \<and> pe_transfer_volume
        (hd (entries (generate_picklist [one_well_layout] demo_source (Finite 375)))) = Finite 375"
proof -
  have ne: "entries (generate_picklist [one_well_layout] demo_source (Finite 375)) \<noteq> []"
    by (simp add: generate_picklist_def picklist_well_def one_well_layout_def
        picklist_source_well_def truthy_def)
  then have mem: "hd (entries (generate_picklist [one_well_layout] demo_source (Finite 375)))
       \<in> set (entries (generate_picklist [one_well_layout] demo_source (Finite 375)))"
    by simp
  from ne mem generate_picklist_uniform_volume [OF mem] show ?thesis by simp
qed

text \<open>
  C5, as stated, fails: the design gives \<open>GeneA\<close> a volume of 5 nL, the picklist is
  generated with the design's default volume of 2.5 nL, and the entry for the \<open>GeneA\<close> well
  is written with 2.5 nL.
\<close>

theorem generate_picklist_ignores_override:
  "gene_configs override_design ''GeneA'' \<noteq> None
   \<and> get_volume_for_gene override_design ''GeneA'' = Finite 5
   \<and> map (\<lambda>entry. (pe_gene_symbol entry, pe_transfer_volume entry))
        (entries (generate_picklist [one_well_layout] demo_source (transfer_volume override_design)))
       = [(''GeneA'', Finite (5 / 2))]"
  by (simp add: generate_picklist_def picklist_well_def one_well_layout_def override_design_def
      picklist_source_well_def truthy_def get_volume_for_gene_def or_default_def)

section \<open>Geometry of the wells of a layout\<close>

lemma set_py_range [simp]: "set (py_range a b) = {a..<b}"
  by (auto simp: py_range_def)

lemma distinct_py_range [simp]: "distinct (py_range a b)"
  by (simp add: py_range_def)

lemma length_py_range [simp]: "length (py_range a b) = nat (b - a)"
  by (simp add: py_range_def)

lemma set_inner_positions: "set (inner_positions p) = inner_set p"
  by (auto simp: inner_positions_def inner_set_def)

lemma distinct_product:
  "distinct xs \<Longrightarrow> distinct ys \<Longrightarrow> distinct [(x, y). x \<leftarrow> xs, y \<leftarrow> ys]"
  by (induction xs) (auto simp: distinct_map inj_on_def)

lemma distinct_inner_positions: "distinct (inner_positions p)"
  unfolding inner_positions_def by (intro distinct_product) simp_all

lemma length_product: "length [(x, y). x \<leftarrow> xs, y \<leftarrow> ys] = length xs * length ys"
  by (induction xs) simp_all

lemma distinct_all_positions: "distinct (all_positions p)"
  unfolding all_positions_def by (intro distinct_product) simp_all

lemma set_all_positions: "set (all_positions p) = {(r, c). 0 \<le> r \<and> r < rows p \<and> 0 \<le> c \<and> c < cols p}"
  by (auto simp: all_positions_def)

lemma rows_cols_pos: "0 < rows p" "0 < cols p"
  by (cases "plate_type p"; simp add: rows_def cols_def get_plate_dimensions_def)+

lemma length_all_positions: "length (all_positions p) = nat (rows p * cols p)"
  using rows_cols_pos[of p]
  by (simp add: all_positions_def length_product nat_mult_distrib)

lemma coord_empty_well [simp]: "coord (empty_well r c) = (r, c)"
  by (simp add: coord_def empty_well_def)

lemma coord_sample_well [simp]: "coord (sample_well sp r c gene rep) = (r, c)"
  by (simp add: coord_def sample_well_def)

lemma content_empty_well [simp]: "content_type (empty_well r c) = EMPTY"
  by (simp add: empty_well_def)

lemma content_sample_well [simp]: "content_type (sample_well sp r c gene rep) = SAMPLE"
  by (simp add: sample_well_def)

lemma map_coord_edge_wells:
  "map coord (edge_wells p) = filter (\<lambda>(r, c). on_edge p r c) (all_positions p)"
proof -
  have "\<And>r cs. map coord (concat (map (\<lambda>c. if on_edge p r c then [empty_well r c] else []) cs))
              = filter (\<lambda>(r, c). on_edge p r c) (map (Pair r) cs)"
    subgoal for r cs by (induction cs) simp_all
    done
  then show ?thesis
    unfolding edge_wells_def all_positions_def
    by (simp add: map_concat filter_concat comp_def)
qed

lemma map_coord_remaining_wells:
  "map coord (remaining_wells p keys) = filter (\<lambda>pos. pos \<notin> set keys) (inner_positions p)"
proof -
  have "\<And>r cs. map coord (concat (map (\<lambda>c. if (r, c) \<notin> set keys then [empty_well r c] else []) cs))
              = filter (\<lambda>pos. pos \<notin> set keys) (map (Pair r) cs)"
    subgoal for r cs by (induction cs) simp_all
    done
  then show ?thesis
    unfolding remaining_wells_def inner_positions_def
    by (simp add: map_concat filter_concat comp_def)
qed

lemma edge_wells_empty: "w \<in> set (edge_wells p) \<Longrightarrow> content_type w = EMPTY"
  by (auto simp: edge_wells_def)

lemma remaining_wells_empty: "w \<in> set (remaining_wells p keys) \<Longrightarrow> content_type w = EMPTY"
  by (auto simp: remaining_wells_def)

lemma inner_not_on_edge: "(r, c) \<in> inner_set p \<Longrightarrow> \<not> on_edge p r c"
  by (auto simp: inner_set_def on_edge_def)

lemma plate_split:
  assumes "0 \<le> edge p"
  shows "set (all_positions p) = {(r, c). (r, c) \<in> set (all_positions p) \<and> on_edge p r c} \<union> inner_set p"
  using assms by (auto simp: set_all_positions inner_set_def on_edge_def)

lemma tiling_coords:
  assumes "0 \<le> edge p" "good_keys p keys" "map coord ss = keys"
  shows "distinct (map coord (edge_wells p @ ss @ remaining_wells p keys))"
    and "set (map coord (edge_wells p @ ss @ remaining_wells p keys)) = set (all_positions p)"
proof -
  let ?E = "filter (\<lambda>(r, c). on_edge p r c) (all_positions p)"
  let ?R = "filter (\<lambda>pos. pos \<notin> set keys) (inner_positions p)"
  have m: "map coord (edge_wells p @ ss @ remaining_wells p keys) = ?E @ keys @ ?R"
    using assms(3) by (simp add: map_coord_edge_wells map_coord_remaining_wells)
  have dk: "distinct keys" and sk: "set keys \<subseteq> inner_set p"
    using assms(2) by (simp_all add: good_keys_def)
  have "set ?E \<inter> inner_set p = {}" by (auto dest: inner_not_on_edge)
  moreover have "set ?R \<subseteq> inner_set p" by (auto simp: set_inner_positions)
  ultimately have "distinct (?E @ keys @ ?R)"
    using dk sk distinct_all_positions[of p] distinct_inner_positions[of p] by auto
  then show "distinct (map coord (edge_wells p @ ss @ remaining_wells p keys))"
    by (simp only: m)
  have "set (?E @ keys @ ?R) = {(r, c). (r, c) \<in> set (all_positions p) \<and> on_edge p r c} \<union> inner_set p"
    using sk by (auto simp: set_inner_positions)
  then show "set (map coord (edge_wells p @ ss @ remaining_wells p keys)) = set (all_positions p)"
    using plate_split[OF assms(1)] by (simp only: m)
qed

lemma tiles_length:
  assumes "tiles p layout"
  shows "length (wells layout) = nat (rows p * cols p)"
proof -
  have "length (wells layout) = length (map coord (wells layout))" by simp
  also have "\<dots> = card (set (map coord (wells layout)))"
    using assms distinct_card[of "map coord (wells layout)"] by (simp add: tiles_def)
  also have "\<dots> = card (set (all_positions p))" using assms by (simp only: tiles_def)
  also have "\<dots> = length (all_positions p)" by (simp add: distinct_card distinct_all_positions)
  finally show ?thesis by (simp add: length_all_positions)
qed

lemma distinct_count_one:
  "distinct (map f xs) \<Longrightarrow> y \<in> set (map f xs) \<Longrightarrow> length (filter (\<lambda>x. f x = y) xs) = 1"
proof (induction xs)
  case Nil then show ?case by simp
next
  case (Cons x xs)
  show ?case
  proof (cases "f x = y")
    case True
    then have "y \<notin> set (map f xs)" using Cons.prems(1) by auto
    then have "filter (\<lambda>x. f x = y) xs = []" by (auto simp: filter_empty_conv)
    with True show ?thesis by simp
  next
    case False
    with Cons show ?thesis by auto
  qed
qed

lemma tiles_once:
  assumes "tiles p layout" "0 \<le> r" "r < rows p" "0 \<le> c" "c < cols p"
  shows "length (filter (\<lambda>w. row w = r \<and> col w = c) (wells layout)) = 1"
proof -
  have "(r, c) \<in> set (map coord (wells layout))"
    using assms by (simp only: tiles_def set_all_positions) simp
  from distinct_count_one[OF _ this] assms(1)
  have "length (filter (\<lambda>w. coord w = (r, c)) (wells layout)) = 1" by (simp add: tiles_def)
  then show ?thesis by (simp add: coord_def)
qed

lemma tiles_make_layout:
  assumes "0 \<le> edge p" "good_keys p keys" "map coord ss = keys"
  shows "tiles p (make_layout p idx (edge_wells p @ ss @ remaining_wells p keys))"
  using tiling_coords[OF assms] by (simp add: tiles_def make_layout_def)

lemma edge_clear_make_layout:
  assumes "set keys \<subseteq> inner_set p" "map coord ss = keys"
  shows "edge_clear p (make_layout p idx (edge_wells p @ ss @ remaining_wells p keys))"
proof -
  have "\<not> on_edge p (row w) (col w)" if "w \<in> set ss" for w
  proof -
    have "coord w \<in> set keys" using that assms(2) by auto
    then have "(row w, col w) \<in> inner_set p" using assms(1) by (auto simp: coord_def)
    then show ?thesis by (rule inner_not_on_edge)
  qed
  then show ?thesis
    by (auto simp: edge_clear_def make_layout_def edge_wells_empty remaining_wells_empty)
qed

subsection \<open>The heuristic keeps the placement inside the inner region\<close>

lemma scan_dc_step: "placed_step p gene rep pl (scan_dc p gene rep t radius dr dcs pl)"
  by (induction dcs) (auto simp: placed_step_def Let_def inner_set_def)

lemma scan_dr_step:
  "placed_step p gene rep pl st \<Longrightarrow> placed_step p gene rep pl (scan_dr p gene rep t radius drs st)"
proof (induction drs arbitrary: st)
  case Nil then show ?case by simp
next
  case (Cons dr drs)
  obtain pl1 placed where st: "st = (pl1, placed)" by (cases st)
  show ?case
  proof (cases placed)
    case True then show ?thesis using Cons.prems st by simp
  next
    case False
    then have "pl1 = pl" using Cons.prems st by (simp add: placed_step_def)
    then show ?thesis using False st Cons.IH[OF scan_dc_step] by simp
  qed
qed

lemma scan_radius_step:
  "placed_step p gene rep pl st \<Longrightarrow> placed_step p gene rep pl (scan_radius p gene rep t radii st)"
proof (induction radii arbitrary: st)
  case Nil then show ?case by simp
next
  case (Cons radius radii)
  obtain pl1 placed where st: "st = (pl1, placed)" by (cases st)
  show ?case
  proof (cases placed)
    case True then show ?thesis using Cons.prems st by simp
  next
    case False
    then show ?thesis using st Cons.IH[OF scan_dr_step[OF Cons.prems]] by simp
  qed
qed

lemma force_c_step:
  assumes "edge p \<le> r" "r < rows p - edge p" "set cs \<subseteq> {edge p..<cols p - edge p}"
  shows "placed_step p gene rep pl (force_c gene rep r cs pl)"
  using assms by (induction cs) (auto simp: placed_step_def inner_set_def)

lemma force_r_step:
  assumes "set rs \<subseteq> {edge p..<rows p - edge p}" "placed_step p gene rep pl st"
  shows "placed_step p gene rep pl (force_r p gene rep rs st)"
  using assms
proof (induction rs arbitrary: st)
  case Nil then show ?case by simp
next
  case (Cons r rs)
  obtain pl1 placed where st: "st = (pl1, placed)" by (cases st)
  show ?case
  proof (cases placed)
    case True then show ?thesis using Cons.prems st by simp
  next
    case False
    then have pl1: "pl1 = pl" using Cons.prems st by (simp add: placed_step_def)
    have "placed_step p gene rep pl (force_c gene rep r (py_range (edge p) (cols p - edge p)) pl)"
      using Cons.prems(1) by (intro force_c_step) auto
    from Cons.IH[OF _ this] Cons.prems(1) show ?thesis using False st pl1 by simp
  qed
qed

lemma place_near_step:
  "place_near p gene rep t pl = pl
   \<or> (\<exists>pos. place_near p gene rep t pl = pl @ [(pos, (gene, rep))] \<and> \<not> occupied pl pos \<and> pos \<in> inner_set p)"
proof -
  define st where "st = scan_radius p gene rep t
                   (py_range 0 (max (inner_rows p) (inner_cols p))) (pl, False)"
  have s1: "placed_step p gene rep pl st"
    unfolding st_def by (intro scan_radius_step) (simp add: placed_step_def)
  show ?thesis
  proof (cases "snd st")
    case True
    then show ?thesis using s1 by (auto simp: placed_step_def place_near_def st_def[symmetric] Let_def)
  next
    case False
    then have f: "fst st = pl" using s1 by (simp add: placed_step_def)
    have "placed_step p gene rep pl (force_r p gene rep (py_range (edge p) (rows p - edge p)) (pl, False))"
      by (intro force_r_step) (simp_all add: placed_step_def)
    then show ?thesis using False f
      by (auto simp: placed_step_def place_near_def st_def[symmetric] Let_def split: if_splits)
  qed
qed

lemma place_sample_step:
  assumes "place_sample p g_idx gene rep pl = Inr pl'"
  shows "pl' = pl \<or> (\<exists>pos. pl' = pl @ [(pos, (gene, rep))] \<and> \<not> occupied pl pos \<and> pos \<in> inner_set p)"
proof -
  from assms obtain t where "pl' = place_near p gene rep t pl"
    by (auto simp: place_sample_def split: sum.splits)
  then show ?thesis using place_near_step[of p gene rep t pl] by simp
qed

lemma place_sample_good:
  assumes "place_sample p g_idx gene rep pl = Inr pl'" "good_keys p (map fst pl)"
  shows "good_keys p (map fst pl')"
  using place_sample_step[OF assms(1)] assms(2) by (force simp: good_keys_def occupied_def)

lemma place_all_good:
  assumes "place_all p insts pl = Inr pl'" "good_keys p (map fst pl)"
  shows "good_keys p (map fst pl')"
  using assms
proof (induction insts arbitrary: pl)
  case Nil then show ?case by simp
next
  case (Cons inst insts)
  obtain g_idx rep gene where inst: "inst = (g_idx, rep, gene)" by (cases inst)
  from Cons.prems(1) obtain pl1 where
    a: "place_sample p g_idx gene rep pl = Inr pl1" and b: "place_all p insts pl1 = Inr pl'"
    by (auto simp: inst split: sum.splits)
  show ?case by (rule Cons.IH[OF b place_sample_good[OF a Cons.prems(2)]])
qed

lemma map_coord_placement:
  "map coord (map (\<lambda>((r, c), (gene, rep)). sample_well sp r c gene rep) pl) = map fst pl"
  by (induction pl) auto

lemma heuristic_layout:
  assumes "solve_heuristic_improved p genes sp idx = Inr layout"
  shows "\<exists>pl. place_all p (samples p genes) [] = Inr pl \<and> good_keys p (map fst pl)
             \<and> layout = make_layout p idx
                 (edge_wells p @ map (\<lambda>((r, c), (gene, rep)). sample_well sp r c gene rep) pl
                  @ remaining_wells p (map fst pl))"
proof -
  from assms obtain pl where pl: "place_all p (samples p genes) [] = Inr pl"
    and l: "layout = make_layout p idx
                 (edge_wells p @ map (\<lambda>((r, c), (gene, rep)). sample_well sp r c gene rep) pl
                  @ remaining_wells p (map fst pl))"
    by (auto simp: solve_heuristic_improved_def split: sum.splits)
  have "good_keys p (map fst pl)"
    by (rule place_all_good[OF pl]) (simp add: good_keys_def)
  with pl l show ?thesis by blast
qed

lemma plain_make_layout:
  assumes "\<forall>w \<in> set ss. content_type w = SAMPLE"
  shows "plain (make_layout p idx (edge_wells p @ ss @ remaining_wells p keys))"
  using assms by (auto simp: plain_def make_layout_def edge_wells_empty remaining_wells_empty)

lemma heuristic_properties:
  assumes "solve_heuristic_improved p genes sp idx = Inr layout"
  shows "edge_clear p layout" "plain layout" "0 \<le> edge p \<Longrightarrow> tiles p layout"
proof -
  from heuristic_layout[OF assms] obtain pl where
    g: "good_keys p (map fst pl)" and
    l: "layout = make_layout p idx
                 (edge_wells p @ map (\<lambda>((r, c), (gene, rep)). sample_well sp r c gene rep) pl
                  @ remaining_wells p (map fst pl))"
    by blast
  show "edge_clear p layout" unfolding l
    using g by (intro edge_clear_make_layout map_coord_placement) (simp add: good_keys_def)
  show "plain layout" unfolding l by (intro plain_make_layout) auto
  show "tiles p layout" if "0 \<le> edge p" unfolding l
    using that g by (intro tiles_make_layout map_coord_placement)
qed

subsection \<open>Layouts of the CP-SAT path and of \<open>solve\<close>\<close>

lemma map_coord_enumerate:
  "map coord (map (\<lambda>(s, (g_idx, rep, gene)). sample_well sp (fst (val s)) (snd (val s)) gene rep)
                (enumerate n ss)) = map val [n..<n + length ss]"
proof (induction ss arbitrary: n)
  case Nil then show ?case by simp
next
  case (Cons x ss)
  obtain g rep gene where x: "x = (g, rep, gene)" by (cases x)
  have "[n..<n + length (x # ss)] = n # [Suc n..<Suc n + length ss]"
    by (simp add: upt_rec[of n] Suc_le_eq)
  then show ?case using Cons.IH[of "Suc n"] by (simp add: x)
qed

lemma cp_feasible_good_keys:
  assumes "cp_feasible p relaxed k ss val"
  shows "good_keys p (map val [0..<length ss])"
proof -
  from assms have dom: "\<forall>s < length ss. edge p \<le> fst (val s) \<and> fst (val s) \<le> rows p - edge p - 1
                   \<and> edge p \<le> snd (val s) \<and> snd (val s) \<le> cols p - edge p - 1"
    and d: "distinct (map (\<lambda>s. fst (val s) * cols p + snd (val s)) [0..<length ss])"
    by (auto simp: cp_feasible_def list_all_iff)
  have "map (\<lambda>s. fst (val s) * cols p + snd (val s)) [0..<length ss]
        = map (\<lambda>(r, c). r * cols p + c) (map val [0..<length ss])"
    by (simp add: case_prod_beta)
  with d have "distinct (map val [0..<length ss])"
    by (metis distinct_map)
  moreover have "set (map val [0..<length ss]) \<subseteq> inner_set p"
  proof
    fix x assume "x \<in> set (map val [0..<length ss])"
    then obtain s where "s < length ss" "x = val s" by auto
    with dom show "x \<in> inner_set p" by (cases "val s") (auto simp: inner_set_def)
  qed
  ultimately show ?thesis by (simp add: good_keys_def)
qed


lemma extract_properties:
  assumes "cp_feasible p relaxed k ss val"
  shows "edge_clear p (extract_solution_from_vars p val ss sp idx)"
    and "0 \<le> edge p \<Longrightarrow> tiles p (extract_solution_from_vars p val ss sp idx)"
proof -
  note g = cp_feasible_good_keys[OF assms]
  have m: "map coord (map (\<lambda>(s, (g_idx, rep, gene)). sample_well sp (fst (val s)) (snd (val s)) gene rep)
                (enumerate 0 ss)) = map val [0..<length ss]"
    using map_coord_enumerate[of sp val 0 ss] by simp
  show "edge_clear p (extract_solution_from_vars p val ss sp idx)"
    unfolding extract_solution_from_vars_def
    using g by (intro edge_clear_make_layout m) (simp add: good_keys_def)
  show "tiles p (extract_solution_from_vars p val ss sp idx)" if "0 \<le> edge p"
    unfolding extract_solution_from_vars_def
    using that g by (intro tiles_make_layout m)
qed

text \<open>Every layout of a single-plate call is an extraction or a heuristic layout.\<close>

lemma single_plate_cases:
  assumes "solve_single_plate_cpsat eng p genes sp idx t = Inr layout"
  shows "solve_heuristic_improved p genes sp idx = Inr layout
         \<or> (\<exists>relaxed st val. eng idx relaxed (samples p genes) t = Reply st val
               \<and> (st = OPTIMAL \<or> st = FEASIBLE)
               \<and> layout = extract_solution_from_vars p val (samples p genes) sp idx)"
  using assms
  by (auto simp: solve_single_plate_cpsat_def solve_relaxed_def
           split: if_splits engine_reply.splits)


lemma single_plate_sound:
  assumes "engine_sound p eng" "solve_single_plate_cpsat eng p genes sp idx t = Inr layout"
  shows "edge_clear p layout" "0 \<le> edge p \<Longrightarrow> tiles p layout"
proof -
  from single_plate_cases[OF assms(2)]
  consider "solve_heuristic_improved p genes sp idx = Inr layout"
    | relaxed val where "cp_feasible p relaxed (length genes) (samples p genes) val"
        "layout = extract_solution_from_vars p val (samples p genes) sp idx"
    using assms(1) unfolding engine_sound_def by blast
  then show "edge_clear p layout"
    by cases (auto intro: heuristic_properties(1) extract_properties(1))
  from single_plate_cases[OF assms(2)]
  consider "solve_heuristic_improved p genes sp idx = Inr layout"
    | relaxed val where "cp_feasible p relaxed (length genes) (samples p genes) val"
        "layout = extract_solution_from_vars p val (samples p genes) sp idx"
    using assms(1) unfolding engine_sound_def by blast
  then show "tiles p layout" if "0 \<le> edge p"
    using that by cases (auto intro: heuristic_properties(3) extract_properties(2))
qed

text \<open>A property of every single-plate layout is a property of every layout of \<open>solve\<close>.\<close>

lemma plates_loop_all:
  assumes "\<And>gs idx t layout. solve_single_plate_cpsat eng p gs sp idx t = Inr layout \<Longrightarrow> P layout"
    and "plates_loop eng p genes sp num_plates t gpp idxs acc = Inr ls"
    and "\<forall>layout \<in> set acc. P layout"
  shows "\<forall>layout \<in> set ls. P layout"
  using assms(2,3)
proof (induction idxs arbitrary: acc)
  case Nil then show ?case by simp
next
  case (Cons idx idxs)
  define gs where "gs = py_slice genes (idx * gpp) (min (idx * gpp + gpp) (int (length genes)))"
  show ?case
  proof (cases "gs = []")
    case True
    then have "plates_loop eng p genes sp num_plates t gpp idxs acc = Inr ls"
      using Cons.prems(1) by (simp add: gs_def Let_def)
    then show ?thesis using Cons.IH Cons.prems(2) by blast
  next
    case False
    with Cons.prems(1) obtain layout where
      a: "solve_single_plate_cpsat eng p gs sp idx (t div num_plates) = Inr layout" and
      b: "plates_loop eng p genes sp num_plates t gpp idxs (acc @ [layout]) = Inr ls"
      by (auto simp: gs_def Let_def split: sum.splits)
    have "\<forall>l \<in> set (acc @ [layout]). P l" using Cons.prems(2) assms(1)[OF a] by simp
    from Cons.IH[OF b this] show ?thesis .
  qed
qed

lemma solve_with_cpsat_all:
  assumes "\<And>gs idx t layout. solve_single_plate_cpsat eng p gs sp idx t = Inr layout \<Longrightarrow> P layout"
    and "solve_with_cpsat eng p genes sp num_plates t = Inr ls"
  shows "\<forall>layout \<in> set ls. P layout"
proof (cases "num_plates = 1")
  case True
  with assms(2) obtain layout where "solve_single_plate_cpsat eng p genes sp 0 t = Inr layout"
    "ls = [layout]"
    by (auto simp: solve_with_cpsat_def split: sum.splits)
  with assms(1) show ?thesis by auto
next
  case False
  with assms(2) obtain gpp where
    "plates_loop eng p genes sp num_plates t gpp (py_range 0 num_plates) [] = Inr ls"
    by (auto simp: solve_with_cpsat_def split: sum.splits)
  show ?thesis
  proof (rule plates_loop_all)
    show "plates_loop eng p genes sp num_plates t gpp (py_range 0 num_plates) [] = Inr ls" by fact
    show "\<And>gs idx t layout. solve_single_plate_cpsat eng p gs sp idx t = Inr layout \<Longrightarrow> P layout"
      by (rule assms(1))
    show "\<forall>layout \<in> set []. P layout" by simp
  qed
qed

lemma solve_attempt_layouts:
  "layouts (solve_attempt eng p genes sp num_plates t st) = []
   \<or> solve_with_cpsat eng p genes sp num_plates t
       = Inr (layouts (solve_attempt eng p genes sp num_plates t st))"
  by (auto simp: solve_attempt_def Let_def split: sum.splits)

lemma solve_layouts_all:
  assumes "\<And>gs idx t layout. solve_single_plate_cpsat eng p gs sp idx t = Inr layout \<Longrightarrow> P layout"
    and "solve eng p genes sp t st = Inr res" "layout \<in> set (layouts res)"
  shows "P layout"
proof -
  from assms(2) obtain n where
    "res = \<lparr>status = FAILED, layouts = [], violations = [], relaxed_constraints = [],
             solve_time_ms = 0, message = Some (TooManyPlates n)\<rparr>
     \<or> res = solve_attempt eng p genes sp n t st"
    by (auto simp: solve_def split: sum.splits if_splits)
  with assms(3) have res: "res = solve_attempt eng p genes sp n t st" by auto
  with assms(3) solve_attempt_layouts[of eng p genes sp n t st]
  have w: "solve_with_cpsat eng p genes sp n t = Inr (layouts res)" by auto
  have "\<forall>layout \<in> set (layouts res). P layout"
  proof (rule solve_with_cpsat_all)
    show "solve_with_cpsat eng p genes sp n t = Inr (layouts res)" by (rule w)
    show "\<And>gs idx t layout. solve_single_plate_cpsat eng p gs sp idx t = Inr layout \<Longrightarrow> P layout"
      by (rule assms(1))
  qed
  with assms(3) show ?thesis by blast
qed

subsection \<open>Validation only warns\<close>

lemma check_neighbour_warning:
  assumes "\<forall>v \<in> set (snd st). severity v = ''warning''"
  shows "\<forall>v \<in> set (snd (check_neighbour layout well d st)). severity v = ''warning''"
  using assms by (auto simp: check_neighbour_def Let_def split: option.splits)

lemma fold_check_neighbour_warning:
  assumes "\<forall>v \<in> set (snd st). severity v = ''warning''"
  shows "\<forall>v \<in> set (snd (fold (check_neighbour layout well) ds st)). severity v = ''warning''"
  using assms
proof (induction ds arbitrary: st)
  case Nil then show ?case by simp
next
  case (Cons d ds)
  show ?case using Cons.IH[OF check_neighbour_warning[OF Cons.prems]] by simp
qed

lemma check_wells_warning:
  assumes "\<forall>v \<in> set (snd st). severity v = ''warning''"
  shows "\<forall>v \<in> set (snd (fold (\<lambda>well st.
                  if content_type well = SAMPLE \<and> truthy (gene_symbol well)
                  then fold (check_neighbour layout well) neighbours8 st
                  else st) ws st)). severity v = ''warning''"
  using assms
proof (induction ws arbitrary: st)
  case Nil then show ?case by simp
next
  case (Cons w ws)
  show ?case
  proof (cases "content_type w = SAMPLE \<and> truthy (gene_symbol w)")
    case True
    then show ?thesis
      using Cons.IH[OF fold_check_neighbour_warning[OF Cons.prems, of layout w neighbours8]] by simp
  next
    case False
    then show ?thesis using Cons.IH[OF Cons.prems] by auto
  qed
qed

lemma check_no_adjacent_warning:
  "v \<in> set (check_no_adjacent layout) \<Longrightarrow> severity v = ''warning''"
  unfolding check_no_adjacent_def
  using check_wells_warning[of "([], [])" layout "wells layout"] by simp

lemma check_quadrant_balance_warning:
  "v \<in> set (check_quadrant_balance p layout) \<Longrightarrow> severity v = ''warning''"
  by (auto simp: check_quadrant_balance_def Let_def split: if_splits)

lemma validate_layouts_warning:
  "v \<in> set (validate_layouts p ls) \<Longrightarrow> severity v = ''warning''"
  by (auto simp: validate_layouts_def check_no_adjacent_warning check_quadrant_balance_warning)

lemma no_error_violation: "\<not> list_ex (\<lambda>v. severity v = ''error'') (validate_layouts p ls)"
  by (auto simp: list_ex_iff dest: validate_layouts_warning)

lemma solve_attempt_status:
  "status (solve_attempt eng p genes sp n t st) \<noteq> PARTIAL"
  "layouts (solve_attempt eng p genes sp n t st) \<noteq> []
   \<Longrightarrow> status (solve_attempt eng p genes sp n t st) = SUCCESS"
  "relaxed_constraints (solve_attempt eng p genes sp n t st) = []"
  "v \<in> set (violations (solve_attempt eng p genes sp n t st)) \<Longrightarrow> severity v = ''warning''"
  by (auto simp: solve_attempt_def Let_def no_error_violation validate_layouts_warning
      split: sum.splits if_splits)

lemma solve_cases:
  assumes "solve eng p genes sp t st = Inr res"
  shows "\<exists>n. ceil_div (total_needed p genes) (available_wells p) = Inr n
            \<and> (if 10 < n
                then res = \<lparr>status = FAILED, layouts = [], violations = [], relaxed_constraints = [],
                            solve_time_ms = 0, message = Some (TooManyPlates n)\<rparr>
                else res = solve_attempt eng p genes sp n t st)"
  using assms by (auto simp: solve_def split: sum.splits if_splits)

lemma solve_success_layouts:
  assumes "solve_with_cpsat eng p genes sp n t = Inr ls" "ls \<noteq> []"
  shows "status (solve_attempt eng p genes sp n t st) = SUCCESS"
    and "layouts (solve_attempt eng p genes sp n t st) = ls"
  using assms by (simp_all add: solve_attempt_def Let_def no_error_violation)

subsection \<open>The golden-ratio targets in double arithmetic\<close>

lemma round_double_fin:
  assumes "0 \<le> x" "x \<le> 2 powi k" "- 1074 \<le> k" "k \<le> 1023"
  shows "round_double x = Finite (dnum (round_double x))"
    and "0 \<le> dnum (round_double x)" and "dnum (round_double x) \<le> 2 powi k"
proof -
  from assms have "\<bar>x\<bar> \<le> 2 powi k" by simp
  from round_double_bounded[OF this assms(3,4)] assms(1)
  obtain y where "round_double x = Finite y" "\<bar>y\<bar> \<le> 2 powi k" "0 \<le> y" by auto
  then show "round_double x = Finite (dnum (round_double x))"
    and "0 \<le> dnum (round_double x)" and "dnum (round_double x) \<le> 2 powi k" by simp_all
qed

lemma py_float_exact: "\<bar>n\<bar> < 2 ^ 53 \<Longrightarrow> py_float n = Inr (Finite (of_int n))"
  by (simp add: py_float_def round_double_of_int)

lemma golden_ratio_phi: "golden_ratio = Finite phi" "0 \<le> phi" "phi \<le> 2"
proof -
  have a: "(0::rat) \<le> 1618033988749895 / 10 ^ 15" by simp
  have b: "(1618033988749895 / 10 ^ 15 :: rat) \<le> 2 powi 1" by simp
  from round_double_fin[OF a b] show "golden_ratio = Finite phi" "0 \<le> phi" "phi \<le> 2"
    by (simp_all add: golden_ratio_def phi_def)
qed

lemma fmul_fin:
  assumes "0 \<le> a" "a \<le> 2 powi i" "0 \<le> b" "b \<le> 2 powi j" "- 1074 \<le> i + j" "i + j \<le> 1023"
  shows "fmul (Finite a) (Finite b) = Finite (dmul a b)" "0 \<le> dmul a b" "dmul a b \<le> 2 powi (i + j)"
proof -
  have "a * b \<le> 2 powi i * 2 powi j" using assms by (intro mult_mono) simp_all
  then have le: "a * b \<le> 2 powi (i + j)" by (simp add: powi2_add)
  have nn: "0 \<le> a * b" using assms by simp
  from round_double_fin[OF nn le assms(5,6)]
  show "fmul (Finite a) (Finite b) = Finite (dmul a b)" "0 \<le> dmul a b" "dmul a b \<le> 2 powi (i + j)"
    by (simp_all add: dmul_def)
qed

lemma fadd_fin:
  assumes "0 \<le> a" "a \<le> 2 powi i" "0 \<le> b" "b \<le> 2 powi i" "- 1075 \<le> i" "i \<le> 1022"
  shows "fadd (Finite a) (Finite b) = Finite (dadd a b)" "0 \<le> dadd a b" "dadd a b \<le> 2 powi (i + 1)"
proof -
  have "a + b \<le> 2 * 2 powi i" using assms by simp
  then have le: "a + b \<le> 2 powi (i + 1)" by (simp add: powi2_add)
  have nn: "0 \<le> a + b" using assms by simp
  have k: "- 1074 \<le> i + 1" "i + 1 \<le> 1023" using assms by simp_all
  from round_double_fin[OF nn le k]
  show "fadd (Finite a) (Finite b) = Finite (dadd a b)" "0 \<le> dadd a b" "dadd a b \<le> 2 powi (i + 1)"
    by (simp_all add: dadd_def)
qed

lemma of_int_le_pow53:
  assumes "0 \<le> n" "n < 2 ^ 53"
  shows "0 \<le> (of_int n :: rat)" "(of_int n :: rat) \<le> 2 powi 53"
proof -
  show "0 \<le> (of_int n :: rat)" using assms(1) by simp
  have "n \<le> 2 ^ 53" using assms(2) by simp
  then have "(of_int n :: rat) \<le> of_int (2 ^ 53)" by (simp only: of_int_le_iff)
  then show "(of_int n :: rat) \<le> 2 powi 53" by simp
qed

lemma powi2_le: "a \<le> 2 powi i \<Longrightarrow> i \<le> j \<Longrightarrow> a \<le> (2::rat) powi j"
  using powi2_mono[of i j] by linarith

lemma offset_chain:
  assumes "0 \<le> a" "a \<le> 2 powi 53" "0 \<le> b" "b \<le> 2 powi 53" "0 \<le> n" "n \<le> 2 powi 53"
  shows "fmul (fadd (fmul (Finite a) golden_ratio) (fmul (fmul (Finite b) golden_ratio) golden_ratio))
              (Finite n)
         = Finite (dmul (dadd (dmul a phi) (dmul (dmul b phi) phi)) n)"
    and "0 \<le> dmul (dadd (dmul a phi) (dmul (dmul b phi) phi)) n"
    and "fmul (fadd (fmul (fmul (Finite a) golden_ratio) golden_ratio) (fmul (Finite b) golden_ratio))
              (Finite n)
         = Finite (dmul (dadd (dmul (dmul a phi) phi) (dmul b phi)) n)"
    and "0 \<le> dmul (dadd (dmul (dmul a phi) phi) (dmul b phi)) n"
proof -
  have ph: "0 \<le> phi" "phi \<le> 2 powi 1" using golden_ratio_phi by simp_all
  note g = golden_ratio_phi(1)
  have a1: "fmul (Finite a) (Finite phi) = Finite (dmul a phi)" "0 \<le> dmul a phi"
    "dmul a phi \<le> 2 powi 54"
    using fmul_fin[OF assms(1,2) ph] by simp_all
  have b1: "fmul (Finite b) (Finite phi) = Finite (dmul b phi)" "0 \<le> dmul b phi"
    "dmul b phi \<le> 2 powi 54"
    using fmul_fin[OF assms(3,4) ph] by simp_all
  have a2: "fmul (Finite (dmul a phi)) (Finite phi) = Finite (dmul (dmul a phi) phi)"
    "0 \<le> dmul (dmul a phi) phi" "dmul (dmul a phi) phi \<le> 2 powi 55"
    using fmul_fin[OF a1(2,3) ph] by simp_all
  have b2: "fmul (Finite (dmul b phi)) (Finite phi) = Finite (dmul (dmul b phi) phi)"
    "0 \<le> dmul (dmul b phi) phi" "dmul (dmul b phi) phi \<le> 2 powi 55"
    using fmul_fin[OF b1(2,3) ph] by simp_all
  have a1': "dmul a phi \<le> 2 powi 55" using powi2_le[OF a1(3), of 55] by simp
  have b1': "dmul b phi \<le> 2 powi 55" using powi2_le[OF b1(3), of 55] by simp
  have s1: "fadd (Finite (dmul a phi)) (Finite (dmul (dmul b phi) phi))
              = Finite (dadd (dmul a phi) (dmul (dmul b phi) phi))"
    "0 \<le> dadd (dmul a phi) (dmul (dmul b phi) phi)"
    "dadd (dmul a phi) (dmul (dmul b phi) phi) \<le> 2 powi 56"
    using fadd_fin[OF a1(2) a1' b2(2,3)] by simp_all
  have s2: "fadd (Finite (dmul (dmul a phi) phi)) (Finite (dmul b phi))
              = Finite (dadd (dmul (dmul a phi) phi) (dmul b phi))"
    "0 \<le> dadd (dmul (dmul a phi) phi) (dmul b phi)"
    "dadd (dmul (dmul a phi) phi) (dmul b phi) \<le> 2 powi 56"
    using fadd_fin[OF a2(2,3) b1(2) b1'] by simp_all
  have m1: "fmul (Finite (dadd (dmul a phi) (dmul (dmul b phi) phi))) (Finite n)
              = Finite (dmul (dadd (dmul a phi) (dmul (dmul b phi) phi)) n)"
    "0 \<le> dmul (dadd (dmul a phi) (dmul (dmul b phi) phi)) n"
    using fmul_fin[OF s1(2,3) assms(5,6)] by simp_all
  have m2: "fmul (Finite (dadd (dmul (dmul a phi) phi) (dmul b phi))) (Finite n)
              = Finite (dmul (dadd (dmul (dmul a phi) phi) (dmul b phi)) n)"
    "0 \<le> dmul (dadd (dmul (dmul a phi) phi) (dmul b phi)) n"
    using fmul_fin[OF s2(2,3) assms(5,6)] by simp_all
  show "fmul (fadd (fmul (Finite a) golden_ratio) (fmul (fmul (Finite b) golden_ratio) golden_ratio))
              (Finite n)
         = Finite (dmul (dadd (dmul a phi) (dmul (dmul b phi) phi)) n)"
    by (simp only: g a1(1) b1(1) b2(1) s1(1) m1(1))
  show "0 \<le> dmul (dadd (dmul a phi) (dmul (dmul b phi) phi)) n" by (rule m1(2))
  show "fmul (fadd (fmul (fmul (Finite a) golden_ratio) golden_ratio) (fmul (Finite b) golden_ratio))
              (Finite n)
         = Finite (dmul (dadd (dmul (dmul a phi) phi) (dmul b phi)) n)"
    by (simp only: g a1(1) a2(1) b1(1) s2(1) m2(1))
  show "0 \<le> dmul (dadd (dmul (dmul a phi) phi) (dmul b phi)) n" by (rule m2(2))
qed

lemma abs_lt_pow53: "0 \<le> n \<Longrightarrow> n < 2 ^ 53 \<Longrightarrow> \<bar>n\<bar> < (2 ^ 53 :: int)"
  by simp

lemma row_offset_value:
  assumes "0 \<le> g_idx" "g_idx < 2 ^ 53" "0 \<le> rep" "rep < 2 ^ 53"
    and "0 < inner_rows p" "inner_rows p < 2 ^ 53"
  shows "row_offset p g_idx rep = Inr (target_row p g_idx rep - edge p)"
proof -
  have n0: "0 \<le> inner_rows p" using assms(5) by simp
  note c = offset_chain(1,2)[OF of_int_le_pow53[OF assms(1,2)] of_int_le_pow53[OF assms(3,4)]
      of_int_le_pow53[OF n0 assms(6)]]
  have f: "py_float g_idx = Inr (Finite (of_int g_idx))" "py_float rep = Inr (Finite (of_int rep))"
    "py_float (inner_rows p) = Inr (Finite (of_int (inner_rows p)))"
    using assms n0 by (simp_all only: py_float_exact[OF abs_lt_pow53])
  show ?thesis
    unfolding row_offset_def f using c(2) assms(5)
    by (simp add: c(1) py_int_def target_row_def)
qed

lemma col_offset_value:
  assumes "0 \<le> g_idx" "g_idx < 2 ^ 53" "0 \<le> rep" "rep < 2 ^ 53"
    and "0 < inner_cols p" "inner_cols p < 2 ^ 53"
  shows "col_offset p g_idx rep = Inr (target_col p g_idx rep - edge p)"
proof -
  have n0: "0 \<le> inner_cols p" using assms(5) by simp
  note c = offset_chain(3,4)[OF of_int_le_pow53[OF assms(1,2)] of_int_le_pow53[OF assms(3,4)]
      of_int_le_pow53[OF n0 assms(6)]]
  have f: "py_float g_idx = Inr (Finite (of_int g_idx))" "py_float rep = Inr (Finite (of_int rep))"
    "py_float (inner_cols p) = Inr (Finite (of_int (inner_cols p)))"
    using assms n0 by (simp_all only: py_float_exact[OF abs_lt_pow53])
  show ?thesis
    unfolding col_offset_def f using c(2) assms(5)
    by (simp add: c(1) py_int_def target_col_def)
qed

lemma place_sample_target:
  assumes "0 \<le> g_idx" "g_idx < 2 ^ 53" "0 \<le> rep" "rep < 2 ^ 53"
    and "0 < inner_rows p" "inner_rows p < 2 ^ 53" "0 < inner_cols p" "inner_cols p < 2 ^ 53"
  shows "place_sample p g_idx gene rep pl
         = Inr (place_near p gene rep (target_row p g_idx rep, target_col p g_idx rep) pl)"
  by (simp add: place_sample_def row_offset_value[OF assms(1-6)]
      col_offset_value[OF assms(1-4) assms(7,8)])

subsection \<open>The plate count\<close>

lemma quotient_lower:
  fixes N K m :: int
  assumes "0 < K" "K \<le> 2 ^ 20" "m * K < N"
  shows "of_int (m * 2 ^ 20 + 1) * 2 powi (- 20) \<le> (of_int N / of_int K :: rat)"
proof -
  have "m * K + 1 \<le> N" using assms(3) by simp
  then have "(of_int (m * K + 1) :: rat) \<le> of_int N" by (simp only: of_int_le_iff)
  then have "(of_int m * of_int K + 1) / of_int K \<le> (of_int N / of_int K :: rat)"
    using assms(1) by (simp add: divide_right_mono)
  then have a: "of_int m + 1 / of_int K \<le> (of_int N / of_int K :: rat)"
    using assms(1) by (simp add: field_simps)
  have "(of_int K :: rat) \<le> of_int (2 ^ 20)" using assms(2) by (simp only: of_int_le_iff)
  then have "(1 :: rat) / 2 ^ 20 \<le> 1 / of_int K" using assms(1) by (simp add: frac_le)
  moreover have "of_int (m * 2 ^ 20 + 1) * 2 powi (- 20) = (of_int m + 1 / 2 ^ 20 :: rat)"
    by (simp add: power_int_minus field_simps)
  ultimately show ?thesis using a by linarith
qed

lemma round_exact_small:
  fixes m :: int
  assumes "\<bar>m\<bar> \<le> 2 ^ 31"
  shows "round_double (of_int (m * 2 ^ 20 + 1) * 2 powi (- 20))
         = Finite (of_int (m * 2 ^ 20 + 1) * 2 powi (- 20))"
proof -
  have "\<bar>m * 2 ^ 20 + 1\<bar> \<le> \<bar>m\<bar> * 2 ^ 20 + 1" by (simp add: abs_mult)
  also have "\<dots> \<le> 2 ^ 31 * 2 ^ 20 + 1" using assms by simp
  also have "\<dots> < (2 ^ 53 :: int)" by simp
  finally show ?thesis by (intro round_double_exact) simp_all
qed

lemma ceil_div_Finite:
  "K \<noteq> 0 \<Longrightarrow> round_double (of_int N / of_int K) = Finite y \<Longrightarrow> ceil_div N K = Inr \<lceil>y\<rceil>"
  by (simp add: ceil_div_def py_truediv_def math_ceil_def)

lemma ceil_div_gt:
  fixes N K m :: int
  assumes "0 < K" "K \<le> 2 ^ 20" "m * K < N" "0 \<le> m" "m \<le> 2 ^ 31" "N \<le> 2 ^ 1023"
  shows "\<exists>n. ceil_div N K = Inr n \<and> m < n"
proof -
  define q :: rat where "q = of_int N / of_int K"
  define l :: rat where "l = of_int (m * 2 ^ 20 + 1) * 2 powi (- 20)"
  have lq: "l \<le> q" unfolding l_def q_def by (rule quotient_lower[OF assms(1-3)])
  have ml: "of_int m < l" unfolding l_def by (simp add: power_int_minus field_simps)
  have N0: "0 < N" using assms(1,3,4) by (smt (verit) mult_nonneg_nonneg)
  have q0: "0 \<le> q" unfolding q_def using N0 assms(1) by simp
  have K1: "1 \<le> (of_int K :: rat)" using assms(1) by simp
  have "q \<le> of_int N / 1" unfolding q_def using N0 K1 by (intro divide_left_mono) simp_all
  then have "q \<le> of_int N" by simp
  also have "\<dots> \<le> of_int (2 ^ 1023)" using assms(6) by (simp only: of_int_le_iff)
  also have "\<dots> = (2::rat) powi 1023" by simp
  finally have qu: "q \<le> 2 powi 1023" .
  have k: "(- 1074 :: int) \<le> 1023" "(1023 :: int) \<le> 1023" by simp_all
  note fin = round_double_fin[OF q0 qu k]
  have rl: "round_double l = Finite l" unfolding l_def using assms(4,5)
    by (intro round_exact_small) simp
  have "l \<le> dnum (round_double q)" using round_double_mono[OF lq] rl by simp
  with ml have "of_int m < dnum (round_double q)" by linarith
  then have "m < \<lceil>dnum (round_double q)\<rceil>" by (simp add: less_ceiling_iff)
  moreover have "ceil_div N K = Inr \<lceil>dnum (round_double q)\<rceil>"
  proof (rule ceil_div_Finite)
    show "K \<noteq> 0" using assms(1) by simp
    show "round_double (of_int N / of_int K) = Finite (dnum (round_double q))"
      using fin(1) unfolding q_def .
  qed
  ultimately show ?thesis by blast
qed

lemma ceil_div_exact:
  fixes N K :: int
  assumes "0 < K" "K \<le> 2 ^ 20" "\<bar>N\<bar> \<le> 2 ^ 30"
  shows "ceil_div N K = Inr \<lceil>of_int N / of_int K :: rat\<rceil>"
proof -
  define q :: rat where "q = of_int N / of_int K"
  define m where "m = \<lceil>q\<rceil>"
  define l :: rat where "l = of_int ((m - 1) * 2 ^ 20 + 1) * 2 powi (- 20)"
  have qm: "q \<le> of_int m" "of_int m - 1 < q" unfolding m_def by linarith+
  have K1: "1 \<le> (of_int K :: rat)" using assms(1) by simp
  have "\<bar>q\<bar> = \<bar>of_int N\<bar> / of_int K" unfolding q_def using assms(1) by simp
  also have "\<dots> \<le> \<bar>of_int N\<bar> / 1" using K1 by (intro divide_left_mono) simp_all
  finally have "\<bar>q\<bar> \<le> \<bar>of_int N\<bar>" by simp
  also have "\<dots> = of_int \<bar>N\<bar>" by simp
  also have "\<dots> \<le> of_int (2 ^ 30)" using assms(3) by (simp only: of_int_le_iff)
  finally have qb: "\<bar>q\<bar> \<le> 2 ^ 30" by simp
  then have "- (2 ^ 30) \<le> q" "q \<le> 2 ^ 30" by linarith+
  then have mb: "- (2 ^ 30) \<le> m" "m \<le> 2 ^ 30" unfolding m_def
    by (simp_all add: le_ceiling_iff ceiling_le_iff)
  have "of_int (m - 1) < q" using qm(2) by simp
  then have "of_int (m - 1) * of_int K < (of_int N :: rat)"
    unfolding q_def using assms(1) by (simp add: field_simps)
  then have "(of_int ((m - 1) * K) :: rat) < of_int N" by simp
  then have "(m - 1) * K < N" by (simp only: of_int_less_iff)
  from quotient_lower[OF assms(1,2) this] have lq: "l \<le> q" unfolding l_def q_def .
  have ml: "of_int m - 1 < l" unfolding l_def by (simp add: power_int_minus field_simps)
  have rl: "round_double l = Finite l" unfolding l_def using mb
    by (intro round_exact_small) simp
  have rm: "round_double (of_int m) = Finite (of_int m)" using mb
    by (intro round_double_of_int) simp
  have lo: "l \<le> dnum (round_double q)" using round_double_mono[OF lq] rl by simp
  have up: "dnum (round_double q) \<le> of_int m" using round_double_mono[OF qm(1)] rm by simp
  have "of_int m \<le> (of_int (2 ^ 30) :: rat)" using mb(2) by (simp only: of_int_le_iff)
  then have m1: "of_int m \<le> (2 ^ 30 :: rat)" by simp
  have "(of_int (- (2 ^ 30)) :: rat) \<le> of_int m" using mb(1) by (simp only: of_int_le_iff)
  then have m2: "- (2 ^ 30 :: rat) \<le> of_int m" by simp
  have "(2 ^ 30 :: rat) + 1 < 2 powi 1024"
  proof -
    have "(2 ^ 30 :: rat) + 1 < 2 powi 31" by simp
    also have "\<dots> < 2 powi 1024" by (simp only: powi2_less_iff)
    finally show ?thesis .
  qed
  with lo up ml m1 m2 have "\<bar>dnum (round_double q)\<bar> < 2 powi 1024" by linarith
  then have fin: "round_double q = Finite (dnum (round_double q))"
    using round_double_cases[of q] by auto
  have "\<lceil>dnum (round_double q)\<rceil> = m"
    using lo up ml by (intro ceiling_unique) linarith+
  moreover have "ceil_div N K = Inr \<lceil>dnum (round_double q)\<rceil>"
  proof (rule ceil_div_Finite)
    show "K \<noteq> 0" using assms(1) by simp
    show "round_double (of_int N / of_int K) = Finite (dnum (round_double q))"
      using fin unfolding q_def .
  qed
  ultimately show ?thesis unfolding m_def q_def by simp
qed

lemma plate_bounds: "rows p \<le> 32" "cols p \<le> 48"
  by (cases "plate_type p"; simp add: rows_def cols_def get_plate_dimensions_def)+

lemma available_wells_bounds:
  assumes "0 \<le> edge_empty_layers p" "0 < inner_rows p" "0 < inner_cols p"
  shows "0 < available_wells p" "available_wells p \<le> 2 ^ 20"
    "inner_rows p < 2 ^ 53" "inner_cols p < 2 ^ 53"
proof -
  have r: "inner_rows p \<le> 32" and c: "inner_cols p \<le> 48"
    using assms(1) plate_bounds[of p] by (simp_all add: inner_rows_def inner_cols_def edge_def)
  show "0 < available_wells p" using assms(2,3) by (simp add: available_wells_def)
  have "inner_rows p * inner_cols p \<le> 32 * 48"
    using r c assms(2,3) by (intro mult_mono) simp_all
  then show "available_wells p \<le> 2 ^ 20" by (simp add: available_wells_def)
  show "inner_rows p < 2 ^ 53" "inner_cols p < 2 ^ 53" using r c by simp_all
qed

lemma solve_attempt_message:
  "message (solve_attempt eng p genes sp n t st) \<noteq> Some (TooManyPlates k)"
  by (simp add: solve_attempt_def Let_def split: sum.splits)

subsection \<open>The search loops find the first acceptable well\<close>

lemma find_app: "find P (xs @ ys) = (case find P xs of Some x \<Rightarrow> Some x | None \<Rightarrow> find P ys)"
  by (induction xs) simp_all

lemma acceptable_iff:
  "acceptable p gene pl (r, c)
   \<longleftrightarrow> \<not> (r < edge p \<or> r \<ge> rows p - edge p) \<and> \<not> (c < edge p \<or> c \<ge> cols p - edge p)
       \<and> \<not> occupied pl (r, c) \<and> \<not> has_adjacent_same_gene r c gene pl"
  by (auto simp: acceptable_def set_inner_positions inner_set_def)

lemma scan_dc_find:
  assumes "\<bar>dr\<bar> \<le> radius" "\<forall>dc \<in> set dcs. \<bar>dc\<bar> \<le> radius"
  shows "scan_dc p gene rep t radius dr dcs pl
         = found gene rep pl (find (acceptable p gene pl) (shell_row t radius dr dcs))"
  using assms(2)
proof (induction dcs)
  case Nil then show ?case by (simp add: shell_row_def found_def)
next
  case (Cons dc dcs)
  have ih: "scan_dc p gene rep t radius dr dcs pl
         = found gene rep pl (find (acceptable p gene pl) (shell_row t radius dr dcs))"
    using Cons by simp
  have dc: "\<bar>dc\<bar> \<le> radius" using Cons.prems by simp
  have ring: "(\<bar>dr\<bar> \<noteq> radius \<and> \<bar>dc\<bar> \<noteq> radius) \<longleftrightarrow> max \<bar>dr\<bar> \<bar>dc\<bar> \<noteq> radius"
    using assms(1) dc by auto
  have sr: "shell_row t radius dr (dc # dcs)
            = (if max \<bar>dr\<bar> \<bar>dc\<bar> = radius then [(fst t + dr, snd t + dc)] else [])
              @ shell_row t radius dr dcs"
    by (simp add: shell_row_def)
  show ?case
  proof (cases "max \<bar>dr\<bar> \<bar>dc\<bar> = radius")
    case False
    then show ?thesis using ring ih by (simp add: sr)
  next
    case True
    then have nr: "\<not> (\<bar>dr\<bar> \<noteq> radius \<and> \<bar>dc\<bar> \<noteq> radius)" using ring by simp
    show ?thesis
    proof (cases "acceptable p gene pl (fst t + dr, snd t + dc)")
      case True
      with \<open>max \<bar>dr\<bar> \<bar>dc\<bar> = radius\<close> nr show ?thesis
        unfolding sr by (auto simp: acceptable_iff found_def Let_def)
    next
      case False
      with \<open>max \<bar>dr\<bar> \<bar>dc\<bar> = radius\<close> nr ih show ?thesis
        unfolding sr by (auto simp: acceptable_iff Let_def)
    qed
  qed
qed

lemma scan_dr_placed: "scan_dr p gene rep t radius drs (pl, True) = (pl, True)"
  by (cases drs) simp_all

lemma scan_radius_placed: "scan_radius p gene rep t radii (pl, True) = (pl, True)"
  by (cases radii) simp_all

lemma force_r_placed: "force_r p gene rep rs (pl, True) = (pl, True)"
  by (cases rs) simp_all

lemma abs_py_range: "dc \<in> set (py_range (- radius) (radius + 1)) \<Longrightarrow> \<bar>dc\<bar> \<le> radius"
  by auto

lemma scan_dr_find:
  assumes "\<forall>dr \<in> set drs. \<bar>dr\<bar> \<le> radius"
  shows "scan_dr p gene rep t radius drs (pl, False)
         = found gene rep pl (find (acceptable p gene pl)
             (concat (map (\<lambda>dr. shell_row t radius dr (py_range (- radius) (radius + 1))) drs)))"
  using assms
proof (induction drs)
  case Nil then show ?case by (simp add: found_def)
next
  case (Cons dr drs)
  have dr: "\<bar>dr\<bar> \<le> radius" using Cons.prems by simp
  have ih: "scan_dr p gene rep t radius drs (pl, False)
         = found gene rep pl (find (acceptable p gene pl)
             (concat (map (\<lambda>dr. shell_row t radius dr (py_range (- radius) (radius + 1))) drs)))"
    using Cons by simp
  have sd: "scan_dc p gene rep t radius dr (py_range (- radius) (radius + 1)) pl
         = found gene rep pl (find (acceptable p gene pl)
             (shell_row t radius dr (py_range (- radius) (radius + 1))))"
    by (rule scan_dc_find[OF dr]) auto
  show ?case
    by (cases "find (acceptable p gene pl) (shell_row t radius dr (py_range (- radius) (radius + 1)))")
       (simp_all add: sd ih find_app found_def scan_dr_placed)
qed

lemma shell_rows: "shell t radius
   = concat (map (\<lambda>dr. shell_row t radius dr (py_range (- radius) (radius + 1)))
       (py_range (- radius) (radius + 1)))"
  by (simp add: shell_def shell_row_def)

lemma scan_radius_find:
  "scan_radius p gene rep t radii (pl, False)
   = found gene rep pl (find (acceptable p gene pl) (concat (map (shell t) radii)))"
proof (induction radii)
  case Nil then show ?case by (simp add: found_def)
next
  case (Cons radius radii)
  have sd: "scan_dr p gene rep t radius (py_range (- radius) (radius + 1)) (pl, False)
         = found gene rep pl (find (acceptable p gene pl) (shell t radius))"
    unfolding shell_rows by (rule scan_dr_find) auto
  show ?case
    by (cases "find (acceptable p gene pl) (shell t radius)")
       (simp_all add: sd Cons find_app found_def scan_radius_placed)
qed

lemma force_c_find:
  "force_c gene rep r cs pl
   = found gene rep pl (find (\<lambda>pos. \<not> occupied pl pos) (map (Pair r) cs))"
  by (induction cs) (simp_all add: found_def)

lemma force_r_find:
  "force_r p gene rep rs (pl, False)
   = found gene rep pl (find (\<lambda>pos. \<not> occupied pl pos)
       (concat (map (\<lambda>r. map (Pair r) (py_range (edge p) (cols p - edge p))) rs)))"
proof (induction rs)
  case Nil then show ?case by (simp add: found_def)
next
  case (Cons r rs)
  show ?case
    by (cases "find (\<lambda>pos. \<not> occupied pl pos) (map (Pair r) (py_range (edge p) (cols p - edge p)))")
       (simp_all add: force_c_find Cons find_app found_def force_r_placed)
qed

lemma inner_positions_rows:
  "inner_positions p
   = concat (map (\<lambda>r. map (Pair r) (py_range (edge p) (cols p - edge p)))
       (py_range (edge p) (rows p - edge p)))"
proof -
  have "concat (map (\<lambda>c. [(r, c)]) cs) = map (Pair r) cs" for r :: int and cs :: "int list"
    by (induction cs) simp_all
  then show ?thesis by (simp add: inner_positions_def)
qed

lemma place_near_policy:
  "place_near p gene rep t pl
   = (case policy_choice p gene pl t of Some pos \<Rightarrow> pl @ [(pos, (gene, rep))] | None \<Rightarrow> pl)"
  unfolding place_near_def policy_choice_def scan_radius_find Let_def
  by (simp add: found_def force_r_find inner_positions_rows[symmetric] split: option.splits)




section \<open>The example inputs evaluated\<close>

lemma length_inner_positions:
  "length (inner_positions p) = nat (inner_rows p) * nat (inner_cols p)"
  by (simp add: inner_positions_def length_product inner_rows_def inner_cols_def algebra_simps)

lemma demo_geometry [simp]:
  "rows demo_design = 8" "cols demo_design = 12" "edge demo_design = 1"
  "inner_rows demo_design = 6" "inner_cols demo_design = 10" "available_wells demo_design = 60"
  by (simp_all add: demo_design_def rows_def cols_def edge_def inner_rows_def inner_cols_def
      available_wells_def get_plate_dimensions_def)

lemma control_geometry [simp]:
  "rows control_design = 8" "cols control_design = 12" "edge control_design = 1"
  "inner_rows control_design = 6" "inner_cols control_design = 10"
  "available_wells control_design = 60"
  by (simp_all add: control_design_def demo_design_def rows_def cols_def edge_def inner_rows_def
      inner_cols_def available_wells_def get_plate_dimensions_def)

lemma py_range_0_2: "py_range 0 2 = [0, 1]"
  by (simp add: py_range_def upto_rec1)

lemma samples_demo [simp]:
  "samples demo_design [''GeneA''] = [(0, 0, ''GeneA''), (0, 1, ''GeneA'')]"
  "samples control_design [''GeneA''] = [(0, 0, ''GeneA''), (0, 1, ''GeneA'')]"
  by (simp_all add: samples_def enumerate_eq_zip get_replicates_for_gene_def demo_design_def
      control_design_def py_range_0_2)

lemma demo_values_feasible:
  assumes "rows p = 8" "cols p = 12" "edge p = 1" "inner_rows p = 6" "inner_cols p = 10"
  shows "cp_feasible p relaxed k [(0, 0, ''GeneA''), (0, 1, ''GeneA'')] demo_values"
proof -
  have sg: "same_gene_samples [(0, 0, ''GeneA''), (0, 1, ''GeneA'')] g
            = (if g = 0 then [0, 1] else [])" for g
    by (simp add: same_gene_samples_def)
  show ?thesis
    unfolding cp_feasible_def list_all_iff sg assms
    by (auto simp: demo_values_def Let_def)
qed

lemma demo_engine_sound:
  assumes "rows p = 8" "cols p = 12" "edge p = 1" "inner_rows p = 6" "inner_cols p = 10"
  shows "engine_sound p demo_engine"
  unfolding engine_sound_def demo_engine_def
  using demo_values_feasible[OF assms] by (auto split: if_splits)

lemma timeout_engine_sound: "engine_sound p timeout_engine"
  by (simp add: engine_sound_def timeout_engine_def)

lemma demo_single_plate:
  "solve_single_plate_cpsat demo_engine demo_design [''GeneA''] demo_source 0 30 = Inr demo_layout"
  by (simp add: solve_single_plate_cpsat_def length_inner_positions demo_engine_def demo_layout_def)

lemma demo_solve:
  "solve demo_engine demo_design [''GeneA''] demo_source 30 7 = Inr demo_result"
  "status demo_result = SUCCESS" "layouts demo_result = [demo_layout]"
proof -
  have n: "total_needed demo_design [''GeneA''] = 2"
    by (simp add: total_needed_def get_replicates_for_gene_def demo_design_def)
  have "ceil_div 2 60 = Inr \<lceil>2 / 60 :: rat\<rceil>"
    using ceil_div_exact[of 60 2] by simp
  also have "\<lceil>2 / 60 :: rat\<rceil> = 1" by (simp add: ceiling_eq_iff)
  finally have c: "ceil_div 2 60 = Inr 1" .
  show "solve demo_engine demo_design [''GeneA''] demo_source 30 7 = Inr demo_result"
    by (simp add: solve_def n c demo_result_def)
  have w: "solve_with_cpsat demo_engine demo_design [''GeneA''] demo_source 1 30 = Inr [demo_layout]"
    by (simp add: solve_with_cpsat_def demo_single_plate)
  show "status demo_result = SUCCESS" "layouts demo_result = [demo_layout]"
    unfolding demo_result_def using solve_success_layouts[OF w] by simp_all
qed


lemma fallback_solve:
  "solve_single_plate_cpsat timeout_engine demo_design [''GeneA''] demo_source 0 30
     = solve_heuristic_improved demo_design [''GeneA''] demo_source 0"
  "solve_heuristic_improved demo_design [''GeneA''] demo_source 0 = Inr fallback_layout"
  "solve timeout_engine demo_design [''GeneA''] demo_source 30 7 = Inr fallback_result"
  "status fallback_result = SUCCESS"
  "layouts fallback_result = [fallback_layout]"
proof -
  show a: "solve_single_plate_cpsat timeout_engine demo_design [''GeneA''] demo_source 0 30
     = solve_heuristic_improved demo_design [''GeneA''] demo_source 0"
    by (simp add: solve_single_plate_cpsat_def solve_relaxed_def length_inner_positions
        timeout_engine_def)
  have "\<exists>pl. place_all demo_design (samples demo_design [''GeneA'']) [] = Inr pl"
    by (simp add: place_sample_target)
  then obtain l where "solve_heuristic_improved demo_design [''GeneA''] demo_source 0 = Inr l"
    unfolding solve_heuristic_improved_def by auto
  then show b: "solve_heuristic_improved demo_design [''GeneA''] demo_source 0 = Inr fallback_layout"
    by (simp add: fallback_layout_def)
  have n: "total_needed demo_design [''GeneA''] = 2"
    by (simp add: total_needed_def get_replicates_for_gene_def demo_design_def)
  have "ceil_div 2 60 = Inr \<lceil>2 / 60 :: rat\<rceil>"
    using ceil_div_exact[of 60 2] by simp
  also have "\<lceil>2 / 60 :: rat\<rceil> = 1" by (simp add: ceiling_eq_iff)
  finally have c: "ceil_div 2 60 = Inr 1" .
  show "solve timeout_engine demo_design [''GeneA''] demo_source 30 7 = Inr fallback_result"
    by (simp add: solve_def n c fallback_result_def)
  have w: "solve_with_cpsat timeout_engine demo_design [''GeneA''] demo_source 1 30
             = Inr [fallback_layout]"
    by (simp add: solve_with_cpsat_def a b)
  show "status fallback_result = SUCCESS" "layouts fallback_result = [fallback_layout]"
    unfolding fallback_result_def using solve_success_layouts[OF w] by simp_all
qed


lemma edge_wells_member:
  assumes "0 \<le> r" "r < rows p" "0 \<le> c" "c < cols p" "on_edge p r c"
  shows "empty_well r c \<in> set (edge_wells p)"
  unfolding edge_wells_def
  apply simp
  apply (rule bexI[of _ r])
   apply (rule bexI[of _ c])
    apply (rule refl)
  using assms apply simp_all
  done

section \<open>Properties of the layouts returned by \<open>solve\<close>\<close>

text \<open>
  C6.  In every layout returned by \<open>solve\<close>, from the CP-SAT extraction (the engine
  answering within the variable domains it was given) or from the heuristic, a well in the
  edge ring (\<open>row < edge\<close>, \<open>row \<ge> rows - edge\<close>, \<open>col < edge\<close> or \<open>col \<ge> cols - edge\<close>) is
  empty; equivalently, a well that is not empty lies strictly inside the edge ring.
\<close>

theorem solve_edge_exclusion:
  assumes "engine_sound p eng"
    and "solve eng p genes sp timeout_seconds solve_time = Inr res"
    and "layout \<in> set (layouts res)" and "w \<in> set (wells layout)"
  shows "(row w < edge p \<or> row w \<ge> rows p - edge p \<or> col w < edge p \<or> col w \<ge> cols p - edge p
            \<longrightarrow> content_type w = EMPTY)
         \<and> (content_type w \<noteq> EMPTY
            \<longrightarrow> edge p \<le> row w \<and> row w < rows p - edge p \<and> edge p \<le> col w \<and> col w < cols p - edge p)"
proof -
  have "edge_clear p layout"
  proof (rule solve_layouts_all[where P = "edge_clear p"])
    show "solve eng p genes sp timeout_seconds solve_time = Inr res" by fact
    show "layout \<in> set (layouts res)" by fact
    show "\<And>gs idx t l. solve_single_plate_cpsat eng p gs sp idx t = Inr l \<Longrightarrow> edge_clear p l"
      by (rule single_plate_sound(1)[OF assms(1)])
  qed
  with assms(4) have "on_edge p (row w) (col w) \<longrightarrow> content_type w = EMPTY"
    by (simp add: edge_clear_def)
  then show ?thesis by (auto simp: on_edge_def)
qed

theorem solve_edge_exclusion_witness:
  "engine_sound demo_design demo_engine
   \<and> solve demo_engine demo_design [''GeneA''] demo_source 30 7 = Inr demo_result
   \<and> demo_layout \<in> set (layouts demo_result)
   \<and> empty_well 0 0 \<in> set (wells demo_layout)
   \<and> row (empty_well 0 0) < edge demo_design
   \<and> content_type (empty_well 0 0) = EMPTY
   \<and> sample_well demo_source 1 1 ''GeneA'' 0 \<in> set (wells demo_layout)
   \<and> content_type (sample_well demo_source 1 1 ''GeneA'' 0) \<noteq> EMPTY
   \<and> edge demo_design \<le> row (sample_well demo_source 1 1 ''GeneA'' 0)
   \<and> row (sample_well demo_source 1 1 ''GeneA'' 0) < rows demo_design - edge demo_design
   \<and> edge demo_design \<le> col (sample_well demo_source 1 1 ''GeneA'' 0)
   \<and> col (sample_well demo_source 1 1 ''GeneA'' 0) < cols demo_design - edge demo_design"
proof -
  have s: "engine_sound demo_design demo_engine" by (rule demo_engine_sound) simp_all
  have l: "demo_layout \<in> set (layouts demo_result)" by (simp add: demo_solve)
  have "empty_well 0 0 \<in> set (edge_wells demo_design)"
    by (rule edge_wells_member) (simp_all add: on_edge_def)
  then have e: "empty_well 0 0 \<in> set (wells demo_layout)"
    by (simp add: demo_layout_def extract_solution_from_vars_def make_layout_def)
  have w: "sample_well demo_source 1 1 ''GeneA'' 0 \<in> set (wells demo_layout)"
    by (simp add: demo_layout_def extract_solution_from_vars_def make_layout_def enumerate_eq_zip
        demo_values_def)
  from solve_edge_exclusion[OF s demo_solve(1) l e] solve_edge_exclusion[OF s demo_solve(1) l w]
  show ?thesis using s l e w demo_solve(1) by (simp add: empty_well_def sample_well_def)
qed

text \<open>
  C7.  Every layout returned by \<open>solve\<close> has exactly \<open>rows \<cdot> cols\<close> wells, and every
  coordinate \<open>(row, col)\<close> of the plate is the coordinate of exactly one well of the layout
  (for a design with \<open>edge_empty_layers \<ge> 0\<close>, as the data model requires).
\<close>

theorem solve_layout_tiles_plate:
  assumes "engine_sound p eng" and "0 \<le> edge_empty_layers p"
    and "solve eng p genes sp timeout_seconds solve_time = Inr res"
    and "layout \<in> set (layouts res)"
  shows "length (wells layout) = nat (rows p * cols p)
         \<and> (\<forall>r c. 0 \<le> r \<and> r < rows p \<and> 0 \<le> c \<and> c < cols p
               \<longrightarrow> length (filter (\<lambda>w. row w = r \<and> col w = c) (wells layout)) = 1)"
proof -
  have e: "0 \<le> edge p" using assms(2) by (simp add: edge_def)
  have "tiles p layout"
  proof (rule solve_layouts_all[where P = "tiles p"])
    show "solve eng p genes sp timeout_seconds solve_time = Inr res" by fact
    show "layout \<in> set (layouts res)" by fact
    show "\<And>gs idx t l. solve_single_plate_cpsat eng p gs sp idx t = Inr l \<Longrightarrow> tiles p l"
      by (rule single_plate_sound(2)[OF assms(1) _ e])
  qed
  then show ?thesis using tiles_length tiles_once by blast
qed

theorem solve_layout_tiles_plate_witness:
  "engine_sound demo_design demo_engine
   \<and> 0 \<le> edge_empty_layers demo_design
   \<and> solve demo_engine demo_design [''GeneA''] demo_source 30 7 = Inr demo_result
   \<and> demo_layout \<in> set (layouts demo_result)
   \<and> length (wells demo_layout) = 96
   \<and> length (filter (\<lambda>w. row w = 3 \<and> col w = 3) (wells demo_layout)) = 1"
proof -
  have s: "engine_sound demo_design demo_engine" by (rule demo_engine_sound) simp_all
  have z: "0 \<le> edge_empty_layers demo_design" by (simp add: demo_design_def)
  have l: "demo_layout \<in> set (layouts demo_result)" by (simp add: demo_solve)
  from solve_layout_tiles_plate[OF s z demo_solve(1) l]
  show ?thesis using s z l demo_solve(1) by simp
qed

text \<open>
  C10.  Every violation produced by the built-in validation (the adjacency check and the
  quadrant check) has severity \<open>warning\<close>, never \<open>error\<close>; so \<open>solve\<close> never returns the
  status \<open>partial\<close>, and whenever it returns layouts the status is \<open>success\<close>.
\<close>

theorem validation_only_warns:
  "(\<forall>v \<in> set (check_no_adjacent layout) \<union> set (check_quadrant_balance p layout)
              \<union> set (validate_layouts p ls).
       severity v = ''warning'' \<and> severity v \<noteq> ''error'')
   \<and> (solve eng p genes sp timeout_seconds solve_time = Inr res
       \<longrightarrow> status res \<noteq> PARTIAL \<and> (layouts res \<noteq> [] \<longrightarrow> status res = SUCCESS)
           \<and> (\<forall>v \<in> set (violations res). severity v = ''warning''))"
proof -
  have "status res \<noteq> PARTIAL \<and> (layouts res \<noteq> [] \<longrightarrow> status res = SUCCESS)
           \<and> (\<forall>v \<in> set (violations res). severity v = ''warning'')"
    if "solve eng p genes sp timeout_seconds solve_time = Inr res"
  proof -
    from solve_cases[OF that] obtain n where
      "res = \<lparr>status = FAILED, layouts = [], violations = [], relaxed_constraints = [],
               solve_time_ms = 0, message = Some (TooManyPlates n)\<rparr>
       \<or> res = solve_attempt eng p genes sp n timeout_seconds solve_time"
      by (auto split: if_splits)
    then show ?thesis
      using solve_attempt_status(1,2)[of eng p genes sp n timeout_seconds solve_time]
        solve_attempt_status(4)[where eng = eng and p = p and genes = genes and sp = sp and n = n
          and t = timeout_seconds and st = solve_time]
      by auto
  qed
  then show ?thesis
    by (auto dest: check_no_adjacent_warning check_quadrant_balance_warning
        validate_layouts_warning)
qed

theorem validation_only_warns_witness:
  "solve demo_engine demo_design [''GeneA''] demo_source 30 7 = Inr demo_result
   \<and> layouts demo_result \<noteq> [] \<and> status demo_result = SUCCESS \<and> status demo_result \<noteq> PARTIAL"
  using validation_only_warns[where eng = demo_engine and p = demo_design
      and genes = "[''GeneA'']" and sp = demo_source and timeout_seconds = 30 and solve_time = 7
      and res = demo_result and layout = demo_layout and ls = "[]"] demo_solve
  by simp




text \<open>
  C4, as the code has it.  \<open>solve\<close> never fills \<open>relaxed_constraints\<close>: the list is empty
  in every result, whichever tier produced the layouts.
\<close>

theorem relaxed_constraints_always_empty:
  assumes "solve eng p genes sp timeout_seconds solve_time = Inr res"
  shows "relaxed_constraints res = []"
proof -
  from solve_cases[OF assms] obtain n where
    "res = \<lparr>status = FAILED, layouts = [], violations = [], relaxed_constraints = [],
             solve_time_ms = 0, message = Some (TooManyPlates n)\<rparr>
     \<or> res = solve_attempt eng p genes sp n timeout_seconds solve_time"
    by (auto split: if_splits)
  then show ?thesis using solve_attempt_status(3) by auto
qed

theorem relaxed_constraints_always_empty_witness:
  "solve demo_engine demo_design [''GeneA''] demo_source 30 7 = Inr demo_result
   \<and> relaxed_constraints demo_result = []"
  using relaxed_constraints_always_empty[OF demo_solve(1)] demo_solve(1) by simp

text \<open>
  C4, as stated, fails: the engine finds no solution for the full model nor for the relaxed
  one, the heuristic fallback produces the layout, \<open>solve\<close> succeeds, and
  \<open>relaxed_constraints\<close> is empty.
\<close>

theorem fallback_reports_no_relaxation:
  "timeout_engine 0 False (samples demo_design [''GeneA'']) 30 = Reply UNKNOWN (\<lambda>s. (0, 0))
   \<and> timeout_engine 0 True (samples demo_design [''GeneA'']) 30 = Reply UNKNOWN (\<lambda>s. (0, 0))
   \<and> solve_single_plate_cpsat timeout_engine demo_design [''GeneA''] demo_source 0 30
       = solve_heuristic_improved demo_design [''GeneA''] demo_source 0
   \<and> solve_heuristic_improved demo_design [''GeneA''] demo_source 0 = Inr fallback_layout
   \<and> solve timeout_engine demo_design [''GeneA''] demo_source 30 7 = Inr fallback_result
   \<and> status fallback_result = SUCCESS
   \<and> layouts fallback_result = [fallback_layout]
   \<and> relaxed_constraints fallback_result = []"
  using fallback_solve by (simp add: timeout_engine_def fallback_result_def solve_attempt_status(3))

text \<open>
  C2.  With \<open>N\<close> the replicates of the input genes plus the control counts and
  \<open>K = (rows - 2\<cdot>edge)\<cdot>(cols - 2\<cdot>edge)\<close>: when \<open>\<lceil>N / K\<rceil> > 10\<close>, \<open>solve\<close> returns the status
  \<open>failed\<close> with the message about the plate limit and no layout, and does so whatever the
  engine would answer; when \<open>\<lceil>N / K\<rceil> \<le> 10\<close> the result is that of the solving attempt for
  \<open>\<lceil>N / K\<rceil>\<close> plates, which never carries the plate-limit message.  The design has a
  non-empty inner region (so \<open>K > 0\<close>) and \<open>0 \<le> N \<le> 2\<^sup>1\<^sup>0\<^sup>2\<^sup>3\<close> (so the quotient is a double).
\<close>

theorem capacity_check:
  assumes "0 \<le> edge_empty_layers p" and "0 < inner_rows p" and "0 < inner_cols p"
    and "0 \<le> total_needed p genes" and "total_needed p genes \<le> 2 ^ 1023"
  shows "total_needed p genes
           = sum_list (map (get_replicates_for_gene p) genes) + sum_list (map c_count (controls p))
         \<and> available_wells p
           = (rows p - 2 * edge_empty_layers p) * (cols p - 2 * edge_empty_layers p)
         \<and> (10 < \<lceil>of_int (total_needed p genes) / of_int (available_wells p) :: rat\<rceil>
            \<longrightarrow> (\<exists>n. 10 < n
                  \<and> (\<forall>e. solve e p genes sp timeout_seconds solve_time
                           = Inr \<lparr>status = FAILED, layouts = [], violations = [],
                                  relaxed_constraints = [], solve_time_ms = 0,
                                  message = Some (TooManyPlates n)\<rparr>)))
         \<and> (\<lceil>of_int (total_needed p genes) / of_int (available_wells p) :: rat\<rceil> \<le> 10
            \<longrightarrow> solve eng p genes sp timeout_seconds solve_time
                  = Inr (solve_attempt eng p genes sp
                           \<lceil>of_int (total_needed p genes) / of_int (available_wells p) :: rat\<rceil>
                           timeout_seconds solve_time)
                \<and> (\<forall>k. message (solve_attempt eng p genes sp
                           \<lceil>of_int (total_needed p genes) / of_int (available_wells p) :: rat\<rceil>
                           timeout_seconds solve_time) \<noteq> Some (TooManyPlates k)))"
proof -
  define N where "N = total_needed p genes"
  define K where "K = available_wells p"
  note kb = available_wells_bounds(1,2)[OF assms(1-3), folded K_def]
  have K0: "0 < (of_int K :: rat)" using kb(1) by simp
  have big: "\<exists>n. 10 < n \<and> (\<forall>e. solve e p genes sp timeout_seconds solve_time
                           = Inr \<lparr>status = FAILED, layouts = [], violations = [],
                                  relaxed_constraints = [], solve_time_ms = 0,
                                  message = Some (TooManyPlates n)\<rparr>)"
    if "10 < \<lceil>of_int N / of_int K :: rat\<rceil>"
  proof -
    from that have "10 < (of_int N / of_int K :: rat)" by (simp add: less_ceiling_iff)
    then have "10 * of_int K < (of_int N :: rat)" using K0 by (simp add: field_simps)
    then have "(of_int (10 * K) :: rat) < of_int N" by simp
    then have "10 * K < N" by (simp only: of_int_less_iff)
    from ceil_div_gt[OF kb this] assms(5)
    obtain n where "ceil_div N K = Inr n" "10 < n" unfolding N_def by auto
    then show ?thesis by (auto simp: solve_def N_def K_def)
  qed
  have small: "solve eng p genes sp timeout_seconds solve_time
                  = Inr (solve_attempt eng p genes sp \<lceil>of_int N / of_int K :: rat\<rceil>
                           timeout_seconds solve_time)"
    if "\<lceil>of_int N / of_int K :: rat\<rceil> \<le> 10"
  proof -
    from that have "(of_int N / of_int K :: rat) \<le> 10" by (simp add: ceiling_le_iff)
    then have "(of_int N :: rat) \<le> 10 * of_int K" using K0 by (simp add: field_simps)
    then have "(of_int N :: rat) \<le> of_int (10 * K)" by simp
    then have "N \<le> 10 * K" by (simp only: of_int_le_iff)
    with kb(2) assms(4) have "\<bar>N\<bar> \<le> 2 ^ 30" unfolding N_def by simp
    from ceil_div_exact[OF kb this] that show ?thesis
      by (simp add: solve_def N_def K_def)
  qed
  show ?thesis
    using big small solve_attempt_message
    by (simp add: N_def K_def total_needed_def available_wells_def inner_rows_def inner_cols_def
        edge_def)
qed

lemma huge_needed:
  "total_needed huge_design [''GeneA''] = 601" "available_wells huge_design = 60"
  "inner_rows huge_design = 6" "inner_cols huge_design = 10"
  by (simp_all add: huge_design_def demo_design_def total_needed_def get_replicates_for_gene_def
      available_wells_def inner_rows_def inner_cols_def rows_def cols_def edge_def
      get_plate_dimensions_def)

theorem capacity_check_witness:
  "0 \<le> edge_empty_layers huge_design \<and> 0 < inner_rows huge_design \<and> 0 < inner_cols huge_design
   \<and> 0 \<le> total_needed huge_design [''GeneA'']
   \<and> total_needed huge_design [''GeneA''] \<le> 2 ^ 1023
   \<and> 10 < \<lceil>of_int (total_needed huge_design [''GeneA'']) / of_int (available_wells huge_design) :: rat\<rceil>
   \<and> status (projr (solve demo_engine huge_design [''GeneA''] demo_source 30 7)) = FAILED
   \<and> layouts (projr (solve demo_engine huge_design [''GeneA''] demo_source 30 7)) = []
   \<and> solve demo_engine huge_design [''GeneA''] demo_source 30 7
       = solve timeout_engine huge_design [''GeneA''] demo_source 30 7
   \<and> 0 \<le> edge_empty_layers demo_design \<and> 0 < inner_rows demo_design \<and> 0 < inner_cols demo_design
   \<and> 0 \<le> total_needed demo_design [''GeneA'']
   \<and> total_needed demo_design [''GeneA''] \<le> 2 ^ 1023
   \<and> \<lceil>of_int (total_needed demo_design [''GeneA'']) / of_int (available_wells demo_design) :: rat\<rceil> = 1
   \<and> solve demo_engine demo_design [''GeneA''] demo_source 30 7
       = Inr (solve_attempt demo_engine demo_design [''GeneA''] demo_source 1 30 7)"
proof -
  have h: "0 \<le> edge_empty_layers huge_design" "0 < inner_rows huge_design"
    "0 < inner_cols huge_design" "0 \<le> total_needed huge_design [''GeneA'']"
    "total_needed huge_design [''GeneA''] \<le> 2 ^ 1023"
    by (simp_all add: huge_needed) (simp add: huge_design_def demo_design_def)
  have hc: "10 < \<lceil>of_int (total_needed huge_design [''GeneA''])
                    / of_int (available_wells huge_design) :: rat\<rceil>"
    by (simp add: huge_needed less_ceiling_iff)
  have n: "total_needed demo_design [''GeneA''] = 2"
    by (simp add: total_needed_def get_replicates_for_gene_def demo_design_def)
  have d: "0 \<le> edge_empty_layers demo_design" "0 < inner_rows demo_design"
    "0 < inner_cols demo_design" "0 \<le> total_needed demo_design [''GeneA'']"
    "total_needed demo_design [''GeneA''] \<le> 2 ^ 1023"
    by (simp_all add: n) (simp add: demo_design_def)
  have dc: "\<lceil>of_int (total_needed demo_design [''GeneA''])
               / of_int (available_wells demo_design) :: rat\<rceil> = 1"
    by (simp add: n ceiling_eq_iff)
  from capacity_check[OF h, of demo_source 30 7] hc
  obtain k where k: "\<And>e. solve e huge_design [''GeneA''] demo_source 30 7
                 = Inr \<lparr>status = FAILED, layouts = [], violations = [],
                        relaxed_constraints = [], solve_time_ms = 0,
                        message = Some (TooManyPlates k)\<rparr>"
    by blast
  have "\<lceil>of_int (total_needed demo_design [''GeneA''])
               / of_int (available_wells demo_design) :: rat\<rceil> \<le> 10
        \<longrightarrow> solve demo_engine demo_design [''GeneA''] demo_source 30 7
            = Inr (solve_attempt demo_engine demo_design [''GeneA''] demo_source
                     \<lceil>of_int (total_needed demo_design [''GeneA''])
                        / of_int (available_wells demo_design) :: rat\<rceil> 30 7)"
    using capacity_check[OF d, of demo_source 30 7 demo_engine] by blast
  then have s: "solve demo_engine demo_design [''GeneA''] demo_source 30 7
       = Inr (solve_attempt demo_engine demo_design [''GeneA''] demo_source 1 30 7)"
    unfolding dc by simp
  show ?thesis using h hc d dc s by (simp add: k)
qed



lemma phi_value: "phi = 7286977268806824 / 2 ^ 52"
  by code_simp



lemma place_all_returns:
  assumes "0 \<le> edge_empty_layers p" "0 < inner_rows p" "0 < inner_cols p"
    and "\<forall>(g_idx, rep, gene) \<in> set insts. 0 \<le> g_idx \<and> g_idx < 2 ^ 53 \<and> 0 \<le> rep \<and> rep < 2 ^ 53"
  shows "\<exists>pl'. place_all p insts pl = Inr pl'"
  using assms(4)
proof (induction insts arbitrary: pl)
  case Nil then show ?case by simp
next
  case (Cons inst insts)
  obtain g_idx rep gene where inst: "inst = (g_idx, rep, gene)" by (cases inst)
  note b = available_wells_bounds(3,4)[OF assms(1-3)]
  have r: "0 \<le> g_idx" "g_idx < 2 ^ 53" "0 \<le> rep" "rep < 2 ^ 53"
    using Cons.prems by (simp_all add: inst)
  have "place_sample p g_idx gene rep pl
        = Inr (place_near p gene rep (target_row p g_idx rep, target_col p g_idx rep) pl)"
    by (rule place_sample_target[OF r assms(2) b(1) assms(3) b(2)])
  then show ?case using Cons.IH[of "place_near p gene rep (target_row p g_idx rep, target_col p g_idx rep) pl"]
      Cons.prems by (simp add: inst)
qed

lemma samples_one_gene:
  "samples p [gene] = map (\<lambda>rep. (0, rep, gene)) (py_range 0 (get_replicates_for_gene p gene))"
proof -
  have "concat (map (\<lambda>rep. [(0::int, rep, gene)]) rs) = map (\<lambda>rep. (0, rep, gene)) rs"
    for rs :: "int list"
    by (induction rs) simp_all
  then show ?thesis by (simp add: samples_def enumerate_eq_zip)
qed

lemma length_filter_conj_le: "length (filter (\<lambda>x. P x \<and> Q x) xs) \<le> length (filter P xs)"
  by (induction xs) simp_all

lemma filter_sample_wells:
  "filter (\<lambda>w. content_type w = SAMPLE)
     (edge_wells p @ map (\<lambda>((r, c), (gene, rep)). sample_well sp r c gene rep) pl
      @ remaining_wells p keys)
   = map (\<lambda>((r, c), (gene, rep)). sample_well sp r c gene rep) pl"
proof -
  have "filter (\<lambda>w. content_type w = SAMPLE) (edge_wells p) = []"
    by (auto simp: filter_empty_conv dest: edge_wells_empty)
  moreover have "filter (\<lambda>w. content_type w = SAMPLE) (remaining_wells p keys) = []"
    by (auto simp: filter_empty_conv dest: remaining_wells_empty)
  moreover have "filter (\<lambda>w. content_type w = SAMPLE)
                   (map (\<lambda>((r, c), (gene, rep)). sample_well sp r c gene rep) pl)
                 = map (\<lambda>((r, c), (gene, rep)). sample_well sp r c gene rep) pl"
    by (induction pl) auto
  ultimately show ?thesis by simp
qed

lemma heuristic_sample_count:
  assumes "solve_heuristic_improved p genes sp idx = Inr layout"
  shows "length (filter (\<lambda>w. content_type w = SAMPLE) (wells layout)) \<le> length (inner_positions p)"
proof -
  from heuristic_layout[OF assms] obtain pl where
    g: "good_keys p (map fst pl)" and
    l: "layout = make_layout p idx
                 (edge_wells p @ map (\<lambda>((r, c), (gene, rep)). sample_well sp r c gene rep) pl
                  @ remaining_wells p (map fst pl))"
    by blast
  have "length (filter (\<lambda>w. content_type w = SAMPLE) (wells layout)) = length (map fst pl)"
    unfolding l by (simp add: make_layout_def filter_sample_wells del: filter_append)
  also have "\<dots> = card (set (map fst pl))"
    using g distinct_card[of "map fst pl"] by (simp add: good_keys_def)
  also have "\<dots> \<le> card (set (inner_positions p))"
  proof (rule card_mono)
    show "finite (set (inner_positions p))" by (rule finite_set)
    show "set (map fst pl) \<subseteq> set (inner_positions p)"
      using g by (simp add: good_keys_def set_inner_positions)
  qed
  also have "\<dots> = length (inner_positions p)"
    by (simp add: distinct_card distinct_inner_positions)
  finally show ?thesis .
qed

lemma free_inner_well:
  assumes "good_keys p (map fst pl)" "length pl < length (inner_positions p)"
  shows "\<exists>pos \<in> set (inner_positions p). \<not> occupied pl pos"
proof (rule ccontr)
  assume "\<not> (\<exists>pos \<in> set (inner_positions p). \<not> occupied pl pos)"
  then have "set (inner_positions p) \<subseteq> set (map fst pl)" by (auto simp: occupied_def)
  then have "card (set (inner_positions p)) \<le> card (set (map fst pl))"
    by (intro card_mono) simp_all
  moreover have "card (set (inner_positions p)) = length (inner_positions p)"
    by (simp add: distinct_card distinct_inner_positions)
  moreover have "card (set (map fst pl)) \<le> length pl"
    using card_length[of "map fst pl"] by simp
  ultimately show False using assms(2) by simp
qed

lemma full_plate:
  assumes "good_keys p (map fst pl)" "length (inner_positions p) \<le> length pl"
  shows "\<forall>pos \<in> set (inner_positions p). occupied pl pos"
proof -
  have d: "card (set (map fst pl)) = length pl"
    using assms(1) distinct_card[of "map fst pl"] by (simp add: good_keys_def)
  have s: "set (map fst pl) \<subseteq> set (inner_positions p)"
    using assms(1) by (simp add: good_keys_def set_inner_positions)
  have "card (set (inner_positions p)) = length (inner_positions p)"
    by (simp add: distinct_card distinct_inner_positions)
  with d assms(2) have "card (set (inner_positions p)) \<le> card (set (map fst pl))" by simp
  with s have "set (map fst pl) = set (inner_positions p)"
    by (intro card_seteq) simp_all
  then show ?thesis by (auto simp: occupied_def)
qed

lemma place_near_length:
  assumes "good_keys p (map fst pl)"
  shows "length (place_near p gene rep t pl)
         = (if length pl < length (inner_positions p) then length pl + 1 else length pl)"
proof (cases "length pl < length (inner_positions p)")
  case True
  from free_inner_well[OF assms True]
  have "find (\<lambda>pos. \<not> occupied pl pos) (inner_positions p) \<noteq> None"
    by (simp only: find_None_iff) blast
  then have "policy_choice p gene pl t \<noteq> None"
    by (auto simp: policy_choice_def split: option.splits)
  then show ?thesis using True by (auto simp: place_near_policy)
next
  case False
  then have full: "\<forall>pos \<in> set (inner_positions p). occupied pl pos"
    using full_plate[OF assms] by simp
  then have "\<not> acceptable p gene pl pos" for pos by (auto simp: acceptable_def)
  then have "find (acceptable p gene pl) xs = None" for xs by (simp add: find_None_iff)
  moreover have "find (\<lambda>pos. \<not> occupied pl pos) (inner_positions p) = None"
    using full by (simp add: find_None_iff)
  ultimately have "policy_choice p gene pl t = None" by (simp add: policy_choice_def)
  then show ?thesis using False by (simp add: place_near_policy)
qed

lemma place_all_length:
  assumes "place_all p insts pl = Inr pl'" "good_keys p (map fst pl)"
  shows "length pl' = min (length pl + length insts) (max (length pl) (length (inner_positions p)))"
  using assms
proof (induction insts arbitrary: pl)
  case Nil then show ?case by auto
next
  case (Cons inst insts)
  obtain g_idx rep gene where inst: "inst = (g_idx, rep, gene)" by (cases inst)
  from Cons.prems(1) obtain pl1 where
    a: "place_sample p g_idx gene rep pl = Inr pl1" and b: "place_all p insts pl1 = Inr pl'"
    by (auto simp: inst split: sum.splits)
  from a obtain t where "pl1 = place_near p gene rep t pl"
    by (auto simp: place_sample_def split: sum.splits)
  then have l1: "length pl1 = (if length pl < length (inner_positions p) then length pl + 1 else length pl)"
    using place_near_length[OF Cons.prems(2)] by simp
  from Cons.IH[OF b place_sample_good[OF a Cons.prems(2)]] l1
  show ?case by (auto simp: min_def max_def)
qed

lemma place_all_labels:
  assumes "place_all p insts pl = Inr pl'"
    and "\<forall>x \<in> set pl. fst (snd x) \<in> G" and "\<forall>(g_idx, rep, gene) \<in> set insts. gene \<in> G"
  shows "\<forall>x \<in> set pl'. fst (snd x) \<in> G"
  using assms
proof (induction insts arbitrary: pl)
  case Nil then show ?case by simp
next
  case (Cons inst insts)
  obtain g_idx rep gene where inst: "inst = (g_idx, rep, gene)" by (cases inst)
  from Cons.prems(1) obtain pl1 where
    a: "place_sample p g_idx gene rep pl = Inr pl1" and b: "place_all p insts pl1 = Inr pl'"
    by (auto simp: inst split: sum.splits)
  have "\<forall>x \<in> set pl1. fst (snd x) \<in> G"
    using place_sample_step[OF a] Cons.prems(2,3) by (auto simp: inst)
  from Cons.IH[OF b this] Cons.prems(3) show ?case by simp
qed

lemma heavy_geometry [simp]:
  "rows heavy_design = 8" "cols heavy_design = 12" "edge heavy_design = 1"
  "inner_rows heavy_design = 6" "inner_cols heavy_design = 10" "available_wells heavy_design = 60"
  "get_replicates_for_gene heavy_design gene = 61" "edge_empty_layers heavy_design = 1"
  by (simp_all add: heavy_design_def demo_design_def rows_def cols_def edge_def inner_rows_def
      inner_cols_def available_wells_def get_plate_dimensions_def get_replicates_for_gene_def)

lemma heavy_heuristic:
  "solve_heuristic_improved heavy_design [''GeneA''] demo_source 0 = Inr heavy_layout"
  "length (filter (\<lambda>w. content_type w = SAMPLE \<and> gene_symbol w = Some ''GeneA'')
             (wells heavy_layout)) = 60"
proof -
  have ex: "\<exists>pl. place_all heavy_design (samples heavy_design [''GeneA'']) [] = Inr pl"
    by (rule place_all_returns) (auto simp: samples_one_gene)
  then obtain pl where pl: "place_all heavy_design (samples heavy_design [''GeneA'']) [] = Inr pl"
    by blast
  then have hl: "heavy_layout = make_layout heavy_design 0
                 (edge_wells heavy_design
                  @ map (\<lambda>((r, c), (gene, rep)). sample_well demo_source r c gene rep) pl
                  @ remaining_wells heavy_design (map fst pl))"
    and "solve_heuristic_improved heavy_design [''GeneA''] demo_source 0 = Inr heavy_layout"
    by (simp_all add: heavy_layout_def solve_heuristic_improved_def)
  then show "solve_heuristic_improved heavy_design [''GeneA''] demo_source 0 = Inr heavy_layout"
    by simp
  have len: "length pl = 60"
    using place_all_length[OF pl] by (simp add: good_keys_def samples_one_gene length_inner_positions)
  have lab: "\<forall>x \<in> set pl. fst (snd x) \<in> {''GeneA''}"
    by (rule place_all_labels[OF pl]) (auto simp: samples_one_gene)
  have "filter (\<lambda>w. content_type w = SAMPLE \<and> gene_symbol w = Some ''GeneA'')
          (map (\<lambda>((r, c), (gene, rep)). sample_well demo_source r c gene rep) pl)
        = map (\<lambda>((r, c), (gene, rep)). sample_well demo_source r c gene rep) pl"
    using lab by (induction pl) (auto simp: sample_well_def)
  moreover have "filter (\<lambda>w. content_type w = SAMPLE \<and> gene_symbol w = Some ''GeneA'')
                   (edge_wells heavy_design) = []"
    by (auto simp: filter_empty_conv dest: edge_wells_empty)
  moreover have "filter (\<lambda>w. content_type w = SAMPLE \<and> gene_symbol w = Some ''GeneA'')
                   (remaining_wells heavy_design (map fst pl)) = []"
    by (auto simp: filter_empty_conv dest: remaining_wells_empty)
  ultimately show "length (filter (\<lambda>w. content_type w = SAMPLE \<and> gene_symbol w = Some ''GeneA'')
             (wells heavy_layout)) = 60"
    unfolding hl by (simp add: make_layout_def len)
qed

lemma heavy_plates:
  "solve_with_cpsat timeout_engine heavy_design [''GeneA''] demo_source 2 30 = Inr [heavy_layout]"
proof -
  have "ceil_div 1 2 = Inr \<lceil>1 / 2 :: rat\<rceil>" using ceil_div_exact[of 2 1] by simp
  also have "\<lceil>1 / 2 :: rat\<rceil> = 1" by (simp add: ceiling_eq_iff)
  finally have c: "ceil_div 1 2 = Inr 1" .
  have s: "solve_single_plate_cpsat timeout_engine heavy_design [''GeneA''] demo_source 0 15
           = Inr heavy_layout"
    by (simp add: solve_single_plate_cpsat_def samples_one_gene length_inner_positions
        heavy_heuristic(1))
  show ?thesis
    by (simp add: solve_with_cpsat_def c py_range_0_2 py_slice_def Let_def s)
qed

text \<open>
  C1 fails on the code.  One gene with 61 replicates on a 96-well plate with one edge layer
  (60 inner wells): two plates are planned, the single gene goes to the first plate, the
  heuristic fills the 60 inner wells and drops the last replicate without a trace, and
  \<open>solve\<close> returns \<open>success\<close> with 60 sample wells for \<open>GeneA\<close> instead of 61.
\<close>

theorem heuristic_drops_replicates:
  "get_replicates_for_gene heavy_design ''GeneA'' = 61
   \<and> solve timeout_engine heavy_design [''GeneA''] demo_source 30 7 = Inr heavy_result
   \<and> status heavy_result = SUCCESS
   \<and> layouts heavy_result = [heavy_layout]
   \<and> length (filter (\<lambda>w. content_type w = SAMPLE \<and> gene_symbol w = Some ''GeneA'')
               (concat (map wells (layouts heavy_result)))) = 60"
proof -
  have n: "total_needed heavy_design [''GeneA''] = 61"
    by (simp add: total_needed_def) (simp add: heavy_design_def demo_design_def)
  have "ceil_div 61 60 = Inr \<lceil>61 / 60 :: rat\<rceil>" using ceil_div_exact[of 60 61] by simp
  also have "\<lceil>61 / 60 :: rat\<rceil> = 2" by (simp add: ceiling_eq_iff)
  finally have c: "ceil_div 61 60 = Inr 2" .
  have s: "solve timeout_engine heavy_design [''GeneA''] demo_source 30 7 = Inr heavy_result"
    by (simp add: solve_def n c heavy_result_def)
  have l: "status heavy_result = SUCCESS" "layouts heavy_result = [heavy_layout]"
    unfolding heavy_result_def using solve_success_layouts[OF heavy_plates] by simp_all
  show ?thesis using s l heavy_heuristic(2) by simp
qed

end
